theory Spec2Isabelle
  imports
    Main
    "HOL-Library.Char_ord"
    "HOL-Library.List_Lexorder"
    "HOL-Library.Product_Lexorder"
    "HOL-Library.Extended_Nat"
    "HOL-Library.Multiset"
    "HOL-Library.Sublist"
begin

section \<open>Strings and the regular expressions of the identifier normalizer\<close>

text \<open>
  A Python \<open>str\<close> is modelled as a \<open>string\<close>, one \<open>char\<close> per code point, so the
  model covers the code points below 256. Every character class of the source is an
  explicit ASCII range, so a character outside ASCII is treated like any other
  character that is not in the class.
\<close>

definition is_upper_az :: "char \<Rightarrow> bool" where
  "is_upper_az c = (CHR ''A'' \<le> c \<and> c \<le> CHR ''Z'')"

definition is_lower_az :: "char \<Rightarrow> bool" where
  "is_lower_az c = (CHR ''a'' \<le> c \<and> c \<le> CHR ''z'')"

definition is_digit :: "char \<Rightarrow> bool" where
  "is_digit c = (CHR ''0'' \<le> c \<and> c \<le> CHR ''9'')"

text \<open>The class \<open>[A-Za-z0-9]\<close>.\<close>

definition is_alnum :: "char \<Rightarrow> bool" where
  "is_alnum c = (is_upper_az c \<or> is_lower_az c \<or> is_digit c)"

text \<open>The class \<open>[A-Za-z0-9_]\<close>.\<close>

definition is_word :: "char \<Rightarrow> bool" where
  "is_word c = (is_alnum c \<or> c = CHR ''_'')"

text \<open>
  \<open>str.isspace\<close> on the code points below 256: tab to carriage return, the four
  separators 0x1C to 0x1F, the space, NEL (0x85) and the no-break space (0xA0).
\<close>

definition is_space :: "char \<Rightarrow> bool" where
  "is_space c = (let n = (of_char c :: nat) in
     (9 \<le> n \<and> n \<le> 13) \<or> (28 \<le> n \<and> n \<le> 32) \<or> n = 133 \<or> n = 160)"

text \<open>\<open>s.strip(chars)\<close>: the characters of the set are dropped at both ends.\<close>

definition strip_chars :: "(char \<Rightarrow> bool) \<Rightarrow> string \<Rightarrow> string" where
  "strip_chars p s = rev (dropWhile p (rev (dropWhile p s)))"

text \<open>\<open>s.strip()\<close>.\<close>

definition py_strip :: "string \<Rightarrow> string" where
  "py_strip s = strip_chars is_space s"

text \<open>\<open>re.sub(r"[^A-Za-z0-9]", "", text)\<close>.\<close>

definition clean_alnum :: "string \<Rightarrow> string" where
  "clean_alnum text = filter is_alnum text"

text \<open>
  \<open>re.sub(p+, "_", text)\<close> for a character class \<open>p\<close>: every maximal run of
  characters of the class becomes one underscore. The flag says whether the
  character before was part of a run, whose underscore is already written.
\<close>

fun sub_runs :: "(char \<Rightarrow> bool) \<Rightarrow> bool \<Rightarrow> string \<Rightarrow> string" where
  "sub_runs p in_run [] = []"
| "sub_runs p in_run (c # cs) =
     (if p c then (if in_run then sub_runs p True cs else CHR ''_'' # sub_runs p True cs)
      else c # sub_runs p False cs)"

text \<open>
  The pattern \<open>_(1|2)$\<close>. Without the MULTILINE flag, \<open>$\<close> matches at the end of the
  text and also just before a line feed that is the last character. The functions
  work on the reversed text and return what is left of it before the match.
\<close>

definition is_12 :: "char \<Rightarrow> bool" where
  "is_12 c = (c = CHR ''1'' \<or> c = CHR ''2'')"

fun match_12_rev :: "string \<Rightarrow> string option" where
  "match_12_rev (c # u # rest) = (if is_12 c \<and> u = CHR ''_'' then Some rest else None)"
| "match_12_rev r = None"

text \<open>The pattern \<open>(_R[12]|_[12])$\<close>: the first alternative is tried first.\<close>

fun match_R12_rev :: "string \<Rightarrow> string option" where
  "match_R12_rev (c # r # u # rest) =
     (if is_12 c \<and> r = CHR ''R'' \<and> u = CHR ''_'' then Some rest
      else match_12_rev (c # r # u # rest))"
| "match_R12_rev r = match_12_rev r"

text \<open>
  \<open>re.sub(pattern$, "", text)\<close> for a pattern given by its matcher on the reversed
  text: the match at the very end is removed, or else the match just before a final
  line feed, which stays. At most one of these matches exists.
\<close>

definition sub_at_end :: "(string \<Rightarrow> string option) \<Rightarrow> string \<Rightarrow> string" where
  "sub_at_end m text =
     (case m (rev text) of
        Some rest \<Rightarrow> rev rest
      | None \<Rightarrow>
          (case rev text of
             [] \<Rightarrow> text
           | nl # r \<Rightarrow>
               (if nl = CHR 0x0A then
                  (case m r of Some rest \<Rightarrow> rev rest @ [nl] | None \<Rightarrow> text)
                else text)))"

text \<open>\<open>re.sub(r"_(1|2)$", "", text)\<close>, as in tree_label_sanitize and rewrite_tree_labels.\<close>

definition strip_suffix_12 :: "string \<Rightarrow> string" where
  "strip_suffix_12 text = sub_at_end match_12_rev text"

text \<open>normalize_msa_id of msa_to_position_table.py.\<close>

definition normalize_msa_id :: "string \<Rightarrow> string" where
  "normalize_msa_id sample_id = sub_at_end match_R12_rev (py_strip sample_id)"

text \<open>
  The second and third statement of tree_label_sanitize: runs of characters outside
  \<open>[A-Za-z0-9_]\<close> become one underscore, runs of underscores become one underscore,
  and the underscores at both ends are dropped.
\<close>

definition collapse_label :: "string \<Rightarrow> string" where
  "collapse_label text =
     strip_chars (\<lambda>c. c = CHR ''_'')
       (sub_runs (\<lambda>c. c = CHR ''_'') False (sub_runs (\<lambda>c. \<not> is_word c) False text))"

text \<open>\<open>text or "NA"\<close>.\<close>

definition or_NA :: "string \<Rightarrow> string" where
  "or_NA text = (if text = [] then ''NA'' else text)"

text \<open>
  tree_label_sanitize, the same in prepare_metadata_o2t_view.py and
  validate_metadata.py.
\<close>

definition tree_label_sanitize :: "string \<Rightarrow> string" where
  "tree_label_sanitize text = or_NA (collapse_label (strip_suffix_12 text))"

text \<open>
  The filter that build_output_metadata and validate_output_constraints apply to the
  sanitized label: \<open>re.sub(r"[^A-Za-z0-9_]", "", label_safe) or "NA"\<close>.
\<close>

definition label_final :: "string \<Rightarrow> string" where
  "label_final raw_label = or_NA (filter is_word (tree_label_sanitize raw_label))"

text \<open>A label has a doubled underscore when two neighbours are both underscores.\<close>

fun doubled_underscore :: "string \<Rightarrow> bool" where
  "doubled_underscore (a # b # cs) =
     ((a = CHR ''_'' \<and> b = CHR ''_'') \<or> doubled_underscore (b # cs))"
| "doubled_underscore cs = False"

text \<open>
  A clean label: not empty, of characters of \<open>[A-Za-z0-9_]\<close> only, with no underscore
  at either end and no doubled underscore.
\<close>

definition clean_label :: "string \<Rightarrow> bool" where
  "clean_label s =
     (s \<noteq> [] \<and> list_all is_word s \<and> hd s \<noteq> CHR ''_'' \<and> last s \<noteq> CHR ''_''
      \<and> \<not> doubled_underscore s)"


section \<open>Tree relabeling: unique leaf names\<close>

definition digit_char :: "nat \<Rightarrow> char" where
  "digit_char d = char_of (48 + d)"

text \<open>The decimal text of a count, as the f-string writes it.\<close>

function str_nat :: "nat \<Rightarrow> string" where
  "str_nat n = (if n < 10 then [digit_char n] else str_nat (n div 10) @ [digit_char (n mod 10)])"
  by pat_completeness auto
termination
  by (relation "measure id") auto

declare str_nat.simps [simp del]

text \<open>
  The loop of ensure_unique_tree_labels: \<open>counts\<close> is the Counter (a missing key
  counts 0), \<open>out\<close> the list built so far.
\<close>

fun unique_loop :: "(string \<Rightarrow> nat) \<Rightarrow> string list \<Rightarrow> string list \<Rightarrow> string list" where
  "unique_loop counts out [] = out"
| "unique_loop counts out (label # labels) =
     (let counts' = counts(label := counts label + 1) in
      if counts' label = 1 then unique_loop counts' (out @ [label]) labels
      else unique_loop counts' (out @ [label @ ''_'' @ str_nat (counts' label)]) labels)"

definition ensure_unique_tree_labels :: "string list \<Rightarrow> string list" where
  "ensure_unique_tree_labels labels = unique_loop (\<lambda>label. 0) [] labels"

section \<open>Reference code index: the permissive loaders\<close>

datatype error =
    InvalidFiveLetterLine nat
  | ColumnNotFound string
  | NoValidRows
  | EmptySeries
  | IndexError
  | KeyError string
  | TooFewRows
  | ColumnCountMismatch
  | InvalidTypes "string list"
  | MissingLabelColumn
  | MissingAccessionColumn
  | RowTooLong nat
  | EmptyLabel nat
  | LabelComma nat
  | EmptyAccession nat
  | AccessionComma nat
  | NoDataRows
  | EmptyTree

text \<open>\<open>text.split(sep)\<close> for a separator of one character.\<close>

fun split_on :: "char \<Rightarrow> string \<Rightarrow> string list" where
  "split_on sep [] = [[]]"
| "split_on sep (c # cs) =
     (if c = sep then [] # split_on sep cs
      else (case split_on sep cs of [] \<Rightarrow> [[c]] | p # ps \<Rightarrow> (c # p) # ps))"

text \<open>
  What both loaders do with one line of five_letter_taxon.tsv before they differ: a
  blank line or a comment is passed over, a line that does not split at tabs into two
  parts is malformed, any other line gives the stripped taxon and code.
\<close>

datatype five_letter_line = Passed | Malformed | Entry string string

definition parse_five_letter_line :: "string \<Rightarrow> five_letter_line" where
  "parse_five_letter_line raw_line =
     (let line = py_strip raw_line in
      if line = [] \<or> take 1 line = ''#'' then Passed
      else (case split_on (CHR 0x09) line of
              [taxon, code] \<Rightarrow> Entry (py_strip taxon) (py_strip code)
            | _ \<Rightarrow> Malformed))"

text \<open>
  load_five_letter_codes of msa_to_position_table.py, on the lines of the file: a
  malformed line is reported and passed over, an entry whose cleaned taxon is empty is
  passed over, any other entry is assigned to the dictionary.
\<close>

fun load_five_letter_codes_loop ::
  "(string \<rightharpoonup> string) \<Rightarrow> string list \<Rightarrow> (string \<rightharpoonup> string)" where
  "load_five_letter_codes_loop labelkey_to_code [] = labelkey_to_code"
| "load_five_letter_codes_loop labelkey_to_code (line # lines) =
     (case parse_five_letter_line line of
        Passed \<Rightarrow> load_five_letter_codes_loop labelkey_to_code lines
      | Malformed \<Rightarrow> load_five_letter_codes_loop labelkey_to_code lines
      | Entry taxon code \<Rightarrow>
          (let label_key = clean_alnum taxon in
           if label_key = [] then load_five_letter_codes_loop labelkey_to_code lines
           else load_five_letter_codes_loop (labelkey_to_code(label_key \<mapsto> code)) lines))"

definition load_five_letter_codes :: "string list \<Rightarrow> (string \<rightharpoonup> string)" where
  "load_five_letter_codes lines = load_five_letter_codes_loop Map.empty lines"

text \<open>
  load_five_letter of prepare_metadata_o2t_view.py, on the lines of the file: a
  malformed line raises with its line number (counted from 1), every entry is assigned
  to both dictionaries.
\<close>

fun load_five_letter_loop ::
  "nat \<Rightarrow> (string \<rightharpoonup> string) \<times> (string \<rightharpoonup> string) \<Rightarrow> string list
     \<Rightarrow> error + (string \<rightharpoonup> string) \<times> (string \<rightharpoonup> string)" where
  "load_five_letter_loop line_no maps [] = Inr maps"
| "load_five_letter_loop line_no (labelkey_to_code, code_to_taxon) (line # lines) =
     (case parse_five_letter_line line of
        Passed \<Rightarrow> load_five_letter_loop (line_no + 1) (labelkey_to_code, code_to_taxon) lines
      | Malformed \<Rightarrow> Inl (InvalidFiveLetterLine line_no)
      | Entry taxon code \<Rightarrow>
          load_five_letter_loop (line_no + 1)
            (labelkey_to_code(clean_alnum taxon \<mapsto> code), code_to_taxon(code \<mapsto> taxon)) lines)"

definition load_five_letter ::
  "string list \<Rightarrow> error + (string \<rightharpoonup> string) \<times> (string \<rightharpoonup> string)" where
  "load_five_letter lines = load_five_letter_loop 1 (Map.empty, Map.empty) lines"

section \<open>Label lookup builder\<close>

text \<open>
  The metadata table: its column names and its rows. A row gives the cell of a column,
  \<open>None\<close> where pandas has a missing value and the text of the value otherwise.
\<close>

record metadata_frame =
  columns :: "string list"
  frame_rows :: "(string \<Rightarrow> string option) list"

text \<open>
  The candidate identifiers of a match value. The source collects them in a set; here
  they are a list without repetition.
\<close>

definition candidate_ids :: "(string \<rightharpoonup> string) \<Rightarrow> string \<Rightarrow> string list" where
  "candidate_ids five_letter_map match_value =
     (let cleaned_label = clean_alnum match_value in
      remdups
        ([normalize_msa_id match_value]
         @ (if cleaned_label \<noteq> [] then [normalize_msa_id cleaned_label] else [])
         @ (case five_letter_map cleaned_label of
              None \<Rightarrow> []
            | Some code \<Rightarrow> if code \<noteq> [] then [normalize_msa_id code] else [])))"

text \<open>
  The first half of the loop body: the output label and the candidates of a row, or
  \<open>None\<close> when one of the four \<open>continue\<close> statements passes the row over.
\<close>

definition row_binding ::
  "string \<Rightarrow> string \<Rightarrow> (string \<rightharpoonup> string) \<Rightarrow> (string \<Rightarrow> string option)
     \<Rightarrow> (string \<times> string list) option" where
  "row_binding match_column output_label_column five_letter_map row =
     (case row match_column of
        None \<Rightarrow> None
      | Some mv \<Rightarrow>
          (let match_value = py_strip mv in
           if match_value = [] then None
           else (case row output_label_column of
                   None \<Rightarrow> None
                 | Some ol \<Rightarrow>
                     (let output_label = py_strip ol in
                      if output_label = [] then None
                      else Some (output_label, candidate_ids five_letter_map match_value)))))"

text \<open>The body of the inner loop, on the dictionary and the collision counter.\<close>

definition bind_candidate ::
  "string \<Rightarrow> (string \<rightharpoonup> string) \<times> nat \<Rightarrow> string \<Rightarrow> (string \<rightharpoonup> string) \<times> nat" where
  "bind_candidate output_label st candidate =
     (case st of (lookup, collisions) \<Rightarrow>
        if candidate = [] then (lookup, collisions)
        else (case lookup candidate of
                None \<Rightarrow> (lookup(candidate \<mapsto> output_label), collisions)
              | Some existing \<Rightarrow>
                  if existing \<noteq> output_label then (lookup, collisions + 1)
                  else (lookup(candidate \<mapsto> output_label), collisions)))"

definition lookup_row_step ::
  "string \<Rightarrow> string \<Rightarrow> (string \<rightharpoonup> string) \<Rightarrow> (string \<rightharpoonup> string) \<times> nat
     \<Rightarrow> (string \<Rightarrow> string option) \<Rightarrow> (string \<rightharpoonup> string) \<times> nat" where
  "lookup_row_step match_column output_label_column five_letter_map st row =
     (case row_binding match_column output_label_column five_letter_map row of
        None \<Rightarrow> st
      | Some (output_label, candidates) \<Rightarrow> foldl (bind_candidate output_label) st candidates)"

text \<open>
  build_metadata_label_lookup. The source returns the dictionary and prints the
  collision counter in a warning; the model returns both.
\<close>

definition build_metadata_label_lookup ::
  "metadata_frame \<Rightarrow> string \<Rightarrow> (string \<rightharpoonup> string)
     \<Rightarrow> error + (string \<rightharpoonup> string) \<times> nat" where
  "build_metadata_label_lookup metadata match_column five_letter_map =
     (if match_column \<notin> set (columns metadata) then Inl (ColumnNotFound match_column)
      else
        (let output_label_column =
               (if ''label'' \<in> set (columns metadata) then ''label'' else match_column)
         in Inr (foldl (lookup_row_step match_column output_label_column five_letter_map)
                   (Map.empty, 0) (frame_rows metadata))))"

text \<open>
  The rows that reach the inner loop, each with its output label and its candidates.
\<close>

definition bound_rows ::
  "metadata_frame \<Rightarrow> string \<Rightarrow> (string \<rightharpoonup> string) \<Rightarrow> (string \<times> string list) list" where
  "bound_rows metadata match_column five_letter_map =
     List.map_filter
       (row_binding match_column
          (if ''label'' \<in> set (columns metadata) then ''label'' else match_column)
          five_letter_map)
       (frame_rows metadata)"


text \<open>
  The attempts of the inner loop over all rows, in their order: the output label of a
  row with each of its candidates.
\<close>

fun attempts :: "(string \<times> string list) list \<Rightarrow> (string \<times> string) list" where
  "attempts [] = []"
| "attempts ((l, cs) # brs) = map (\<lambda>c. (l, c)) cs @ attempts brs"

section \<open>Gene selector\<close>

text \<open>
  The table that load_og_genes_table returns is a list of (OG, Gene) rows. It is read
  with \<open>keep_default_na=False\<close>, so every cell is a text, stripped of white space.
\<close>

text \<open>The distinct elements of a list, in the order of their first occurrence.\<close>

fun uniq_first :: "'a list \<Rightarrow> 'a list" where
  "uniq_first [] = []"
| "uniq_first (x # xs) = x # uniq_first (filter (\<lambda>y. y \<noteq> x) xs)"

text \<open>
  \<open>Series.value_counts()\<close>: the distinct values with the number of their occurrences,
  the largest count first. Values of equal count come in the order of their first
  occurrence.
\<close>

definition value_counts :: "string list \<Rightarrow> (string \<times> nat) list" where
  "value_counts series =
     sort_key (\<lambda>(g, c). - int c) (map (\<lambda>g. (g, count_list series g)) (uniq_first series))"

text \<open>
  \<open>str.casefold\<close> on the code points below 256, as a list of code points: the capital
  letters go to the small ones, the micro sign to the Greek mu and the sharp s to
  \<open>ss\<close>. Lists of code points compare as Python strings do.
\<close>

definition casefold_char :: "char \<Rightarrow> nat list" where
  "casefold_char c =
     (let n = (of_char c :: nat) in
      if (65 \<le> n \<and> n \<le> 90) \<or> (192 \<le> n \<and> n \<le> 222 \<and> n \<noteq> 215) then [n + 32]
      else if n = 181 then [956]
      else if n = 223 then [115, 115]
      else [n])"

definition casefold :: "string \<Rightarrow> nat list" where
  "casefold s = concat (map casefold_char s)"

text \<open>
  choose_gene_name. On an empty series \<open>counts.max()\<close> is not a number and \<open>int\<close>
  raises; \<open>winners[0]\<close> raises on an empty list.
\<close>

definition choose_gene_name :: "string list \<Rightarrow> error + string \<times> nat \<times> nat" where
  "choose_gene_name gene_series =
     (let counts = value_counts gene_series in
      if counts = [] then Inl EmptySeries
      else
        (let max_count = Max (set (map snd counts));
             winners = sort_key casefold (map fst (filter (\<lambda>(g, c). c = max_count) counts))
         in (case winners of
               [] \<Rightarrow> Inl IndexError
             | chosen # others \<Rightarrow> Inr (chosen, max_count, length counts))))"

text \<open>The pattern \<open>^([A-Za-z_]+)(\d+)$\<close> of og_sort_key, with its two groups.\<close>

definition is_og_prefix_char :: "char \<Rightarrow> bool" where
  "is_og_prefix_char c = (is_upper_az c \<or> is_lower_az c \<or> c = CHR ''_'')"

definition match_og :: "string \<Rightarrow> (string \<times> string) option" where
  "match_og og_value =
     (let letters = takeWhile is_og_prefix_char og_value;
          rest = dropWhile is_og_prefix_char og_value;
          digits = takeWhile is_digit rest;
          tail = dropWhile is_digit rest
      in if letters \<noteq> [] \<and> digits \<noteq> [] \<and> (tail = [] \<or> tail = [CHR 0x0A])
         then Some (letters, digits) else None)"

text \<open>\<open>int(digits)\<close>.\<close>

definition int_of_digits :: "string \<Rightarrow> nat" where
  "int_of_digits digits = foldl (\<lambda>n c. 10 * n + (of_char c - 48)) 0 digits"

text \<open>
  og_sort_key: a pair of a text and a number, the number being infinite where the
  pattern does not match. Pairs compare as Python tuples do, first by the text.
\<close>

definition og_sort_key :: "string \<Rightarrow> string \<times> enat" where
  "og_sort_key og_value =
     (case match_og og_value of
        Some (letters, digits) \<Rightarrow> (letters, enat (int_of_digits digits))
      | None \<Rightarrow> (og_value, \<infinity>))"

record conflict =
  conflict_og :: string
  gene_name :: string
  gene_count :: nat
  chosen_gene :: string
  chosen_count :: nat

text \<open>
  The loop of build_mapping over the groups of \<open>work.groupby("OG", sort=False)\<close>, which
  come in the order of the first row of each OG.
\<close>

fun mapping_loop ::
  "(string \<times> string) list \<Rightarrow> (string \<times> string) list \<Rightarrow> conflict list \<Rightarrow> string list
     \<Rightarrow> error + (string \<times> string) list \<times> conflict list" where
  "mapping_loop work records conflict_records [] = Inr (records, conflict_records)"
| "mapping_loop work records conflict_records (og # ogs) =
     (let group = map snd (filter (\<lambda>(og', gene). og' = og) work) in
      case choose_gene_name group of
        Inl e \<Rightarrow> Inl e
      | Inr (chosen, chosen_cnt, n_unique) \<Rightarrow>
          mapping_loop work (records @ [(og, chosen)])
            (if n_unique > 1 then
               conflict_records @
                 map (\<lambda>(name, cnt).
                        \<lparr>conflict_og = og, gene_name = name, gene_count = cnt,
                         chosen_gene = chosen, chosen_count = chosen_cnt\<rparr>)
                     (value_counts group)
             else conflict_records)
            ogs)"

text \<open>
  build_mapping: the rows of the result are sorted by og_sort_key. The sort of pandas
  does not fix the order of rows of equal key (such as \<open>OG2\<close> and \<open>OG02\<close>); the model
  takes one such order, that of the loop, and no statement below depends on it.
\<close>

definition build_mapping ::
  "(string \<times> string) list \<Rightarrow> bool \<Rightarrow> error + (string \<times> string) list \<times> conflict list" where
  "build_mapping df keep_empty_gene =
     (let work = (if \<not> keep_empty_gene then filter (\<lambda>(og, gene). gene \<noteq> []) df else df) in
      if work = [] then Inl NoValidRows
      else
        (case mapping_loop work [] [] (uniq_first (map fst work)) of
           Inl e \<Rightarrow> Inl e
         | Inr (records, conflict_records) \<Rightarrow>
             Inr (sort_key (\<lambda>(og, gene). og_sort_key og) records, conflict_records)))"

section \<open>Metadata parsers\<close>

text \<open>\<open>str.lower\<close> on the code points below 256.\<close>

definition py_lower_char :: "char \<Rightarrow> char" where
  "py_lower_char c =
     (let n = (of_char c :: nat) in
      if (65 \<le> n \<and> n \<le> 90) \<or> (192 \<le> n \<and> n \<le> 222 \<and> n \<noteq> 215) then char_of (n + 32) else c)"

definition py_lower :: "string \<Rightarrow> string" where
  "py_lower s = map py_lower_char s"

text \<open>A dictionary comprehension: of two pairs with the same key the later one stays.\<close>

definition dict_of :: "('k \<times> 'v) list \<Rightarrow> ('k \<rightharpoonup> 'v)" where
  "dict_of kvs = map_of (rev kvs)"

record metadata_input =
  header :: "string list"
  types :: "string list"
  rows :: "(string \<rightharpoonup> string) list"
  label_col :: string
  accession_col :: string

definition VALID_TYPES :: "string list" where
  "VALID_TYPES = [''character'', ''date'', ''numeric'', ''integer'']"

text \<open>
  The row dictionary \<open>{header[idx]: raw[idx].strip() for idx in range(len(header))}\<close>
  of a row that has as many cells as the header.
\<close>

definition make_row :: "string list \<Rightarrow> string list \<Rightarrow> (string \<rightharpoonup> string)" where
  "make_row hdr raw = dict_of (zip hdr (map py_strip raw))"

text \<open>
  \<open>not any(v != "" for v in row.values())\<close>: the keys of the row are the names of the
  header.
\<close>

definition row_is_blank :: "string list \<Rightarrow> (string \<rightharpoonup> string) \<Rightarrow> bool" where
  "row_is_blank hdr row = (\<not> list_ex (\<lambda>h. row h \<noteq> Some []) hdr)"

text \<open>A short row is padded with empty cells.\<close>

definition pad_row :: "string list \<Rightarrow> string list \<Rightarrow> string list" where
  "pad_row hdr raw = raw @ replicate (length hdr - length raw) []"

text \<open>
  The loop over the data rows in parse_metadata_csv of validate_metadata.py; \<open>i\<close> is
  the number of the row in the file.
\<close>

fun validate_rows_loop ::
  "string list \<Rightarrow> string \<Rightarrow> string \<Rightarrow> nat \<Rightarrow> (string \<rightharpoonup> string) list \<Rightarrow> string list list
     \<Rightarrow> error + (string \<rightharpoonup> string) list" where
  "validate_rows_loop hdr lcol acol i data_rows [] = Inr data_rows"
| "validate_rows_loop hdr lcol acol i data_rows (raw # rest) =
     (if length raw > length hdr then Inl (RowTooLong i)
      else
        (let row = make_row hdr (pad_row hdr raw) in
         if row_is_blank hdr row then validate_rows_loop hdr lcol acol (i + 1) data_rows rest
         else
           (case row lcol of
              None \<Rightarrow> Inl (KeyError lcol)
            | Some label \<Rightarrow>
                if label = [] then Inl (EmptyLabel i)
                else if CHR '','' \<in> set label then Inl (LabelComma i)
                else
                  (case row acol of
                     None \<Rightarrow> Inl (KeyError acol)
                   | Some accession \<Rightarrow>
                       if accession = [] then Inl (EmptyAccession i)
                       else if CHR '','' \<in> set accession then Inl (AccessionComma i)
                       else validate_rows_loop hdr lcol acol (i + 1) (data_rows @ [row]) rest))))"

text \<open>The same loop in prepare_metadata_o2t_view.py, which has no check of the cells.\<close>

fun prepare_rows_loop ::
  "string list \<Rightarrow> nat \<Rightarrow> (string \<rightharpoonup> string) list \<Rightarrow> string list list
     \<Rightarrow> error + (string \<rightharpoonup> string) list" where
  "prepare_rows_loop hdr i data_rows [] = Inr data_rows"
| "prepare_rows_loop hdr i data_rows (raw # rest) =
     (if length raw > length hdr then Inl (RowTooLong i)
      else
        (let row = make_row hdr (pad_row hdr raw) in
         if row_is_blank hdr row then prepare_rows_loop hdr (i + 1) data_rows rest
         else prepare_rows_loop hdr (i + 1) (data_rows @ [row]) rest))"

text \<open>
  The checks of parse_metadata_csv before the loop, on the rows that \<open>csv.reader\<close>
  gives: they return the header, the types and the two required columns.
\<close>

definition validate_header ::
  "string list list \<Rightarrow> error + string list \<times> string list \<times> string \<times> string" where
  "validate_header csv_rows =
     (if length csv_rows < 3 then Inl TooFewRows
      else
        (let hdr = map py_strip (csv_rows ! 0);
             tps = map (\<lambda>t. py_lower (py_strip t)) (csv_rows ! 1)
         in if length hdr \<noteq> length tps then Inl ColumnCountMismatch
            else
              (let bad_types = filter (\<lambda>t. t \<notin> set VALID_TYPES) tps in
               if bad_types \<noteq> [] then Inl (InvalidTypes (sort (remdups bad_types)))
               else
                 (let lower_map = dict_of (map (\<lambda>col. (py_lower col, col)) hdr) in
                  case lower_map ''label'' of
                    None \<Rightarrow> Inl MissingLabelColumn
                  | Some lcol \<Rightarrow>
                      (case lower_map ''accession'' of
                         None \<Rightarrow> Inl MissingAccessionColumn
                       | Some acol \<Rightarrow> Inr (hdr, tps, lcol, acol))))))"

definition prepare_header ::
  "string list list \<Rightarrow> error + string list \<times> string list \<times> string \<times> string" where
  "prepare_header csv_rows =
     (if length csv_rows < 3 then Inl TooFewRows
      else
        (let hdr = map py_strip (csv_rows ! 0);
             tps = map (\<lambda>t. py_lower (py_strip t)) (csv_rows ! 1)
         in if length hdr \<noteq> length tps then Inl ColumnCountMismatch
            else
              (let lower_map = dict_of (map (\<lambda>col. (py_lower col, col)) hdr) in
               case lower_map ''label'' of
                 None \<Rightarrow> Inl MissingLabelColumn
               | Some lcol \<Rightarrow>
                   (case lower_map ''accession'' of
                      None \<Rightarrow> Inl MissingAccessionColumn
                    | Some acol \<Rightarrow> Inr (hdr, tps, lcol, acol)))))"

text \<open>parse_metadata_csv of validate_metadata.py.\<close>

definition parse_metadata_csv_validate :: "string list list \<Rightarrow> error + metadata_input" where
  "parse_metadata_csv_validate csv_rows =
     (case validate_header csv_rows of
        Inl e \<Rightarrow> Inl e
      | Inr (hdr, tps, lcol, acol) \<Rightarrow>
          (case validate_rows_loop hdr lcol acol 3 [] (drop 2 csv_rows) of
             Inl e \<Rightarrow> Inl e
           | Inr data_rows \<Rightarrow>
               if data_rows = [] then Inl NoDataRows
               else Inr \<lparr>header = hdr, types = tps, rows = data_rows,
                         label_col = lcol, accession_col = acol\<rparr>))"

text \<open>parse_metadata_csv of prepare_metadata_o2t_view.py.\<close>

definition parse_metadata_csv_prepare :: "string list list \<Rightarrow> error + metadata_input" where
  "parse_metadata_csv_prepare csv_rows =
     (case prepare_header csv_rows of
        Inl e \<Rightarrow> Inl e
      | Inr (hdr, tps, lcol, acol) \<Rightarrow>
          (case prepare_rows_loop hdr 3 [] (drop 2 csv_rows) of
             Inl e \<Rightarrow> Inl e
           | Inr data_rows \<Rightarrow>
               if data_rows = [] then Inl NoDataRows
               else Inr \<lparr>header = hdr, types = tps, rows = data_rows,
                         label_col = lcol, accession_col = acol\<rparr>))"

text \<open>A row of the file is blank when every cell is empty after stripping.\<close>

definition blank_cells :: "string list \<Rightarrow> bool" where
  "blank_cells raw = list_all (\<lambda>cell. py_strip cell = []) raw"

section \<open>Tree relabeling: the names of the terminals\<close>

text \<open>
  The scan of the tokens of a terminal name in rewrite_tree_labels: the first token
  that is a code decides, by the preferred label of the code or else by the sanitized
  taxon of the code.
\<close>

fun scan_tokens ::
  "(string \<rightharpoonup> string) \<Rightarrow> (string \<rightharpoonup> string) \<Rightarrow> string list \<Rightarrow> string option" where
  "scan_tokens code_to_taxon code_to_preferred_label [] = None"
| "scan_tokens code_to_taxon code_to_preferred_label (tok # tokens) =
     (case code_to_taxon tok of
        None \<Rightarrow> scan_tokens code_to_taxon code_to_preferred_label tokens
      | Some taxon \<Rightarrow>
          Some (case code_to_preferred_label tok of
                  None \<Rightarrow> tree_label_sanitize taxon
                | Some preferred \<Rightarrow> preferred))"

definition terminal_name ::
  "(string \<rightharpoonup> string) \<Rightarrow> (string \<rightharpoonup> string) \<Rightarrow> string \<Rightarrow> string" where
  "terminal_name code_to_taxon code_to_preferred_label original =
     (let stripped = strip_suffix_12 original in
      case scan_tokens code_to_taxon code_to_preferred_label (split_on (CHR ''_'') stripped) of
        None \<Rightarrow> tree_label_sanitize stripped
      | Some new_name \<Rightarrow> new_name)"

text \<open>
  rewrite_tree_labels, on the names of the terminals of the tree in the order of the
  traversal: the names written back to the terminals.
\<close>

definition rewrite_tree_labels ::
  "(string \<rightharpoonup> string) \<Rightarrow> (string \<rightharpoonup> string) \<Rightarrow> string list \<Rightarrow> error + string list" where
  "rewrite_tree_labels code_to_taxon code_to_preferred_label terminals =
     (if terminals = [] then Inl EmptyTree
      else Inr (ensure_unique_tree_labels
                  (map (terminal_name code_to_taxon code_to_preferred_label) terminals)))"

section \<open>Which lines bind a key or a code\<close>

text \<open>A line binds a label key when it is an entry whose cleaned taxon is the key.\<close>

definition binds_key :: "string \<Rightarrow> string \<Rightarrow> bool" where
  "binds_key label_key line =
     (case parse_five_letter_line line of
        Entry taxon code \<Rightarrow> clean_alnum taxon = label_key
      | _ \<Rightarrow> False)"

text \<open>A line binds a code when it is an entry with this code.\<close>

definition binds_code :: "string \<Rightarrow> string \<Rightarrow> bool" where
  "binds_code code line =
     (case parse_five_letter_line line of
        Entry taxon code' \<Rightarrow> code' = code
      | _ \<Rightarrow> False)"

definition well_formed_line :: "string \<Rightarrow> bool" where
  "well_formed_line line = (parse_five_letter_line line \<noteq> Malformed)"

text \<open>
  The rows that both loops pass over: not longer than the header, and blank as a
  dictionary.
\<close>

definition skipped_row :: "string list \<Rightarrow> string list \<Rightarrow> bool" where
  "skipped_row hdr raw =
     (length raw \<le> length hdr \<and> row_is_blank hdr (make_row hdr (pad_row hdr raw)))"

section \<open>Properties of the sanitized label\<close>


lemma doubled_underscore_iff:
  "doubled_underscore xs \<longleftrightarrow> (\<exists>ys zs. xs = ys @ ''__'' @ zs)"
proof (induction xs rule: doubled_underscore.induct)
  case (1 a b cs)
  show ?case
  proof
    assume "doubled_underscore (a # b # cs)"
    then consider "a = CHR ''_'' \<and> b = CHR ''_''" | "doubled_underscore (b # cs)" by auto
    then show "\<exists>ys zs. a # b # cs = ys @ ''__'' @ zs"
    proof cases
      case 1
      then have "a # b # cs = [] @ ''__'' @ cs" by simp
      then show ?thesis by blast
    next
      case 2
      with "1.IH" obtain ys zs where "b # cs = ys @ ''__'' @ zs" by blast
      then have "a # b # cs = (a # ys) @ ''__'' @ zs" by simp
      then show ?thesis by blast
    qed
  next
    assume "\<exists>ys zs. a # b # cs = ys @ ''__'' @ zs"
    then obtain ys zs where e: "a # b # cs = ys @ ''__'' @ zs" by blast
    show "doubled_underscore (a # b # cs)"
    proof (cases ys)
      case Nil
      with e show ?thesis by simp
    next
      case (Cons y ys')
      with e have "b # cs = ys' @ ''__'' @ zs" by simp
      then have "doubled_underscore (b # cs)" using "1.IH" by blast
      then show ?thesis by simp
    qed
  qed
qed (auto simp: append_eq_Cons_conv)

lemma doubled_underscore_rev: "doubled_underscore (rev xs) = doubled_underscore xs"
proof -
  have "doubled_underscore ys" if "doubled_underscore (rev ys)" for ys
  proof -
    from that obtain us vs where "rev ys = us @ ''__'' @ vs"
      unfolding doubled_underscore_iff by blast
    then have "rev (rev ys) = rev (us @ ''__'' @ vs)" by simp
    then have "ys = rev vs @ ''__'' @ rev us" by simp
    then show ?thesis unfolding doubled_underscore_iff by blast
  qed
  from this[of xs] this[of "rev xs"] show ?thesis by auto
qed

lemma doubled_underscore_dropWhile:
  "\<not> doubled_underscore xs \<Longrightarrow> \<not> doubled_underscore (dropWhile p xs)"
proof
  assume n: "\<not> doubled_underscore xs" and d: "doubled_underscore (dropWhile p xs)"
  from d obtain us vs where "dropWhile p xs = us @ ''__'' @ vs"
    unfolding doubled_underscore_iff by blast
  then have "takeWhile p xs @ dropWhile p xs = (takeWhile p xs @ us) @ ''__'' @ vs" by simp
  then have "xs = (takeWhile p xs @ us) @ ''__'' @ vs" by simp
  with n show False unfolding doubled_underscore_iff by blast
qed

lemma doubled_underscore_strip:
  "\<not> doubled_underscore xs \<Longrightarrow> \<not> doubled_underscore (strip_chars p xs)"
  by (simp add: strip_chars_def doubled_underscore_rev doubled_underscore_dropWhile)

lemma list_all_dropWhile: "list_all q xs \<Longrightarrow> list_all q (dropWhile p xs)"
  by (induction xs) auto

lemma list_all_strip: "list_all q xs \<Longrightarrow> list_all q (strip_chars p xs)"
  by (simp add: strip_chars_def list_all_dropWhile)

lemma last_dropWhile: "dropWhile p xs \<noteq> [] \<Longrightarrow> last (dropWhile p xs) = last xs"
  by (induction xs) (auto split: if_splits)

lemma strip_last: "strip_chars p xs \<noteq> [] \<Longrightarrow> \<not> p (last (strip_chars p xs))"
proof -
  assume a: "strip_chars p xs \<noteq> []"
  then have ne: "dropWhile p (rev (dropWhile p xs)) \<noteq> []" by (simp add: strip_chars_def)
  have "last (strip_chars p xs) = hd (dropWhile p (rev (dropWhile p xs)))"
    using ne by (simp add: strip_chars_def last_rev)
  with ne show ?thesis by (simp add: hd_dropWhile)
qed

lemma strip_hd: "strip_chars p xs \<noteq> [] \<Longrightarrow> \<not> p (hd (strip_chars p xs))"
proof -
  assume a: "strip_chars p xs \<noteq> []"
  then have ne: "dropWhile p (rev (dropWhile p xs)) \<noteq> []" by (simp add: strip_chars_def)
  have d: "dropWhile p xs \<noteq> []"
  proof
    assume "dropWhile p xs = []"
    with ne show False by simp
  qed
  have "hd (strip_chars p xs) = last (dropWhile p (rev (dropWhile p xs)))"
    using ne by (simp add: strip_chars_def hd_rev)
  also have "\<dots> = last (rev (dropWhile p xs))" using ne by (rule last_dropWhile)
  also have "\<dots> = hd (dropWhile p xs)" using d by (simp add: last_rev)
  finally show ?thesis using d by (simp add: hd_dropWhile)
qed

lemma sub_runs_nonword_all: "list_all is_word (sub_runs (\<lambda>c. \<not> is_word c) b s)"
  by (induction s arbitrary: b) (auto simp: is_word_def)

lemma sub_runs_underscore_all:
  "list_all is_word s \<Longrightarrow> list_all is_word (sub_runs (\<lambda>c. c = CHR ''_'') b s)"
  by (induction s arbitrary: b) (auto simp: is_word_def)

lemma sub_runs_underscore_no_double:
  "\<not> doubled_underscore (sub_runs (\<lambda>c. c = CHR ''_'') b s) \<and>
   (b \<longrightarrow> take 1 (sub_runs (\<lambda>c. c = CHR ''_'') b s) \<noteq> ''_'')"
proof (induction s arbitrary: b)
  case Nil
  show ?case by simp
next
  case (Cons c cs)
  show ?case
  proof (cases "c = CHR ''_''")
    case True
    show ?thesis
    proof (cases b)
      case True
      with \<open>c = CHR ''_''\<close> Cons.IH[of True] show ?thesis by simp
    next
      case False
      with \<open>c = CHR ''_''\<close> Cons.IH[of True] show ?thesis
        by (cases "sub_runs (\<lambda>c. c = CHR ''_'') True cs") auto
    qed
  next
    case False
    with Cons.IH[of False] show ?thesis
      by (cases "sub_runs (\<lambda>c. c = CHR ''_'') False cs") auto
  qed
qed


lemma collapse_label_props:
  "list_all is_word (collapse_label s)"
  "\<not> doubled_underscore (collapse_label s)"
  "collapse_label s \<noteq> [] \<Longrightarrow> hd (collapse_label s) \<noteq> CHR ''_''"
  "collapse_label s \<noteq> [] \<Longrightarrow> last (collapse_label s) \<noteq> CHR ''_''"
     apply (simp add: collapse_label_def list_all_strip sub_runs_underscore_all sub_runs_nonword_all)
    apply (simp add: collapse_label_def doubled_underscore_strip sub_runs_underscore_no_double)
  unfolding collapse_label_def
  using strip_hd[of "\<lambda>c. c = CHR ''_''"] apply blast
  using strip_last[of "\<lambda>c. c = CHR ''_''"] apply blast
  done

lemma sanitize_clean: "clean_label (tree_label_sanitize x)"
proof (cases "collapse_label (strip_suffix_12 x) = []")
  case True
  then have "tree_label_sanitize x = ''NA''" by (simp add: tree_label_sanitize_def or_NA_def)
  then show ?thesis
    by (simp add: clean_label_def is_word_def is_alnum_def is_upper_az_def)
next
  case False
  then have "tree_label_sanitize x = collapse_label (strip_suffix_12 x)"
    by (simp add: tree_label_sanitize_def or_NA_def)
  with False collapse_label_props[of "strip_suffix_12 x"] show ?thesis
    by (simp add: clean_label_def)
qed


text \<open>
  Claim C9. For every text \<open>x\<close>, tree_label_sanitize gives a label that is not empty,
  has only characters of \<open>[A-Za-z0-9_]\<close>, has no underscore at its start or end and no
  doubled underscore; so the filter applied after it in build_output_metadata and
  validate_output_constraints changes nothing: \<open>label_final\<close> is \<open>label_safe\<close>.
\<close>

theorem tree_label_sanitize_invariant: "tree_label_sanitize x \<noteq> [] \<and>
   list_all is_word (tree_label_sanitize x) \<and>
   hd (tree_label_sanitize x) \<noteq> CHR ''_'' \<and>
   last (tree_label_sanitize x) \<noteq> CHR ''_'' \<and>
   \<not> doubled_underscore (tree_label_sanitize x) \<and>
   label_final x = tree_label_sanitize x"
proof -
  have c: "clean_label (tree_label_sanitize x)" by (rule sanitize_clean)
  then have "filter is_word (tree_label_sanitize x) = tree_label_sanitize x"
    by (simp add: clean_label_def list_all_iff)
  with c have "label_final x = tree_label_sanitize x"
    by (simp add: label_final_def or_NA_def clean_label_def)
  with c show ?thesis by (simp add: clean_label_def)
qed

lemma sub_runs_nonword_id: "list_all is_word s \<Longrightarrow> sub_runs (\<lambda>c. \<not> is_word c) b s = s"
  by (induction s arbitrary: b) auto

lemma sub_runs_underscore_id:
  "\<not> doubled_underscore s \<Longrightarrow> (b \<longrightarrow> take 1 s \<noteq> ''_'')
     \<Longrightarrow> sub_runs (\<lambda>c. c = CHR ''_'') b s = s"
proof (induction s arbitrary: b)
  case Nil
  show ?case by simp
next
  case (Cons c cs)
  show ?case
  proof (cases "c = CHR ''_''")
    case True
    with Cons.prems have nb: "\<not> b" by auto
    from True Cons.prems(1) have "\<not> doubled_underscore cs" "take 1 cs \<noteq> ''_''"
      by (cases cs; auto)+
    with Cons.IH[of True] have "sub_runs (\<lambda>c. c = CHR ''_'') True cs = cs" by simp
    with True nb show ?thesis by simp
  next
    case False
    from Cons.prems(1) have "\<not> doubled_underscore cs" by (cases cs) auto
    with Cons.IH[of False] have "sub_runs (\<lambda>c. c = CHR ''_'') False cs = cs" by simp
    with False show ?thesis by simp
  qed
qed

lemma strip_chars_id: "s \<noteq> [] \<Longrightarrow> \<not> p (hd s) \<Longrightarrow> \<not> p (last s) \<Longrightarrow> strip_chars p s = s"
proof -
  assume a: "s \<noteq> []" "\<not> p (hd s)" "\<not> p (last s)"
  then have 1: "dropWhile p s = s" by (cases s) auto
  from a have "dropWhile p (rev s) = rev s" by (cases "rev s") (auto simp: hd_rev)
  with 1 show ?thesis by (simp add: strip_chars_def)
qed

lemma collapse_label_clean: "clean_label s \<Longrightarrow> collapse_label s = s"
  by (simp add: collapse_label_def clean_label_def sub_runs_nonword_id sub_runs_underscore_id
      strip_chars_id)

lemma length_sub_runs: "length (sub_runs p b s) \<le> length s"
proof (induction s arbitrary: b)
  case Nil
  show ?case by simp
next
  case (Cons c cs)
  from Cons[of True] Cons[of False] show ?case by auto
qed

lemma length_strip_chars: "length (strip_chars p s) \<le> length s"
proof -
  have "length (dropWhile p (rev (dropWhile p s))) \<le> length (rev (dropWhile p s))"
    by (rule length_dropWhile_le)
  also have "\<dots> \<le> length s" by (simp add: length_dropWhile_le)
  finally show ?thesis by (simp add: strip_chars_def)
qed

lemma length_collapse_label: "length (collapse_label s) \<le> length s"
proof -
  have "length (collapse_label s)
      \<le> length (sub_runs (\<lambda>c. c = CHR ''_'') False (sub_runs (\<lambda>c. \<not> is_word c) False s))"
    unfolding collapse_label_def by (rule length_strip_chars)
  also have "\<dots> \<le> length (sub_runs (\<lambda>c. \<not> is_word c) False s)" by (rule length_sub_runs)
  also have "\<dots> \<le> length s" by (rule length_sub_runs)
  finally show ?thesis .
qed

lemma match_12_rev_Some:
  "match_12_rev r = Some rest \<longleftrightarrow> (r = CHR ''1'' # CHR ''_'' # rest \<or> r = CHR ''2'' # CHR ''_'' # rest)"
  by (cases r rule: match_12_rev.cases) (auto simp: is_12_def)

lemma match_12_rev_length: "match_12_rev r = Some rest \<Longrightarrow> length r = length rest + 2"
  by (auto simp: match_12_rev_Some)

lemma strip_suffix_12_changed:
  "strip_suffix_12 s \<noteq> s \<Longrightarrow> length (strip_suffix_12 s) + 2 = length s"
proof -
  assume a: "strip_suffix_12 s \<noteq> s"
  show ?thesis
  proof (cases "match_12_rev (rev s)")
    case (Some rest)
    then have "length (rev s) = length rest + 2" by (rule match_12_rev_length)
    with Some show ?thesis by (simp add: strip_suffix_12_def sub_at_end_def)
  next
    case None
    with a obtain nl r where r: "rev s = nl # r" "nl = CHR 0x0A"
      by (cases "rev s") (auto simp: strip_suffix_12_def sub_at_end_def split: if_splits)
    with a None obtain rest where m: "match_12_rev r = Some rest"
      by (cases "match_12_rev r") (auto simp: strip_suffix_12_def sub_at_end_def)
    then have "length r = length rest + 2" by (rule match_12_rev_length)
    moreover have "length s = Suc (length r)" using r(1) by (metis length_Cons length_rev)
    ultimately show ?thesis using None r m by (simp add: strip_suffix_12_def sub_at_end_def)
  qed
qed

lemma strip_suffix_12_clean:
  "clean_label s \<Longrightarrow> (strip_suffix_12 s = s) = (\<not> suffix ''_1'' s \<and> \<not> suffix ''_2'' s)"
proof -
  assume c: "clean_label s"
  then have ne: "s \<noteq> []" and w: "is_word (last s)"
    by (auto simp: clean_label_def list_all_iff)
  have nl: "\<not> is_word (CHR 0x0A)"
    by (simp add: is_word_def is_alnum_def is_upper_az_def is_lower_az_def is_digit_def)
  from ne obtain c r where r: "rev s = c # r" by (cases "rev s") auto
  with ne have "last s = c" by (metis last_rev list.sel(1) rev_rev_ident hd_rev)
  with w nl have cnl: "c \<noteq> CHR 0x0A" by auto
  have suf: "(suffix ''_1'' s \<or> suffix ''_2'' s) = (\<exists>rest. match_12_rev (rev s) = Some rest)"
  proof
    assume "suffix ''_1'' s \<or> suffix ''_2'' s"
    then obtain zs where "s = zs @ ''_1'' \<or> s = zs @ ''_2''" by (auto simp: suffix_def)
    then have "rev s = CHR ''1'' # CHR ''_'' # rev zs \<or> rev s = CHR ''2'' # CHR ''_'' # rev zs"
      by auto
    then have "match_12_rev (rev s) = Some (rev zs)" by (auto simp: is_12_def)
    then show "\<exists>rest. match_12_rev (rev s) = Some rest" by blast
  next
    assume "\<exists>rest. match_12_rev (rev s) = Some rest"
    then obtain rest where "rev s = CHR ''1'' # CHR ''_'' # rest \<or> rev s = CHR ''2'' # CHR ''_'' # rest"
      by (auto simp: match_12_rev_Some)
    then have "rev (rev s) = rev (CHR ''1'' # CHR ''_'' # rest) \<or> rev (rev s) = rev (CHR ''2'' # CHR ''_'' # rest)"
      by auto
    then have "s = rev rest @ ''_1'' \<or> s = rev rest @ ''_2''" by simp
    then show "suffix ''_1'' s \<or> suffix ''_2'' s" by (auto simp: suffix_def)
  qed
  show ?thesis
  proof (cases "match_12_rev (rev s)")
    case None
    with suf r cnl show ?thesis by (simp add: strip_suffix_12_def sub_at_end_def)
  next
    case (Some rest)
    then have "length (rev s) = length rest + 2" by (rule match_12_rev_length)
    then have "length (rev rest) \<noteq> length s" by simp
    then have "rev rest \<noteq> s" by blast
    with Some suf show ?thesis by (auto simp add: strip_suffix_12_def sub_at_end_def)
  qed
qed

text \<open>
  Claim C1, as amended. Sanitizing a sanitized label again gives the same label exactly
  when the sanitized label does not itself end in \<open>_1\<close> or \<open>_2\<close>: the pair suffix is
  removed once per call, so a label such as \<open>a_1_1\<close> loses one suffix at each call.
\<close>

theorem tree_label_sanitize_twice: "(tree_label_sanitize (tree_label_sanitize x) = tree_label_sanitize x) =
   (\<not> suffix ''_1'' (tree_label_sanitize x) \<and> \<not> suffix ''_2'' (tree_label_sanitize x))"
proof -
  let ?y = "tree_label_sanitize x"
  have c: "clean_label ?y" by (rule sanitize_clean)
  have "(tree_label_sanitize ?y = ?y) = (strip_suffix_12 ?y = ?y)"
  proof
    assume "strip_suffix_12 ?y = ?y"
    then have "tree_label_sanitize ?y = or_NA (collapse_label ?y)"
      by (simp add: tree_label_sanitize_def[of ?y])
    also have "\<dots> = ?y" using c by (simp add: collapse_label_clean or_NA_def clean_label_def)
    finally show "tree_label_sanitize ?y = ?y" .
  next
    assume fx: "tree_label_sanitize ?y = ?y"
    show "strip_suffix_12 ?y = ?y"
    proof (rule ccontr)
      assume ch: "strip_suffix_12 ?y \<noteq> ?y"
      then have len: "length (strip_suffix_12 ?y) + 2 = length ?y" by (rule strip_suffix_12_changed)
      have le: "length (collapse_label (strip_suffix_12 ?y)) \<le> length (strip_suffix_12 ?y)"
        by (rule length_collapse_label)
      have "length (tree_label_sanitize ?y) < length ?y \<or> tree_label_sanitize ?y = ''NA''"
        using len le by (auto simp add: tree_label_sanitize_def[of ?y] or_NA_def)
      with fx have "?y = ''NA''" by auto
      then have "strip_suffix_12 ?y = ?y" by (simp add: strip_suffix_12_def sub_at_end_def is_12_def)
      with ch show False by simp
    qed
  qed
  with strip_suffix_12_clean[OF c] show ?thesis by simp
qed

theorem tree_label_sanitize_twice_witness:
  "tree_label_sanitize (tree_label_sanitize ''Sample A'') = tree_label_sanitize ''Sample A''"
proof -
  have h: "\<not> suffix ''_1'' (tree_label_sanitize ''Sample A'') \<and>
           \<not> suffix ''_2'' (tree_label_sanitize ''Sample A'')"
    by code_simp
  show ?thesis by (rule iffD2 [OF tree_label_sanitize_twice h])
qed

text \<open>
  The claim as stated fails: \<open>a_1_1\<close> is sanitized to \<open>a_1\<close>, and \<open>a_1\<close> to \<open>a\<close>.
\<close>

theorem tree_label_sanitize_not_idempotent:
  "tree_label_sanitize (tree_label_sanitize ''a_1_1'') \<noteq> tree_label_sanitize ''a_1_1''"
  by code_simp

section \<open>The pair suffix\<close>

lemma sub_runs_none: "list_all (\<lambda>c. \<not> p c) ys \<Longrightarrow> sub_runs p b ys = ys"
  by (induction ys arbitrary: b) auto

lemma sub_runs_append:
  "list_all (\<lambda>c. \<not> p c) ys \<Longrightarrow> sub_runs p b (xs @ ys) = sub_runs p b xs @ ys"
  by (induction xs arbitrary: b) (auto simp: sub_runs_none)

lemma sub_runs_filter_alnum:
  "(\<And>c. is_alnum c \<Longrightarrow> \<not> p c) \<Longrightarrow> filter is_alnum (sub_runs p b xs) = filter is_alnum xs"
proof (induction xs arbitrary: b)
  case Nil
  show ?case by simp
next
  case (Cons c cs)
  have u: "\<not> is_alnum (CHR ''_'')"
    by (simp add: is_alnum_def is_upper_az_def is_lower_az_def is_digit_def)
  from Cons.IH[OF Cons.prems] Cons.prems[of c] u show ?case by auto
qed

lemma sub_runs_underscore_snoc:
  "(\<not> b \<longrightarrow> sub_runs (\<lambda>c. c = CHR ''_'') b (t @ ''_'') \<noteq> []) \<and>
   (sub_runs (\<lambda>c. c = CHR ''_'') b (t @ ''_'') = [] \<or>
    last (sub_runs (\<lambda>c. c = CHR ''_'') b (t @ ''_'')) = CHR ''_'')"
proof (induction t arbitrary: b)
  case Nil
  show ?case by simp
next
  case (Cons c cs)
  from Cons[of True] Cons[of False] show ?case by auto
qed

lemma dropWhile_append_keep: "\<not> p a \<Longrightarrow> dropWhile p (xs @ a # ys) = dropWhile p xs @ a # ys"
  by (induction xs) auto

lemma strip_chars_snoc2:
  assumes "\<not> p a" "\<not> p b"
  shows "strip_chars p (v @ [a, b]) = dropWhile p v @ [a, b]"
proof -
  have "dropWhile p (v @ [a, b]) = dropWhile p v @ [a, b]"
    using assms(1) by (rule dropWhile_append_keep)
  then have "strip_chars p (v @ [a, b]) = rev (dropWhile p (b # a # rev (dropWhile p v)))"
    by (simp add: strip_chars_def)
  with assms(2) show ?thesis by simp
qed

lemma tree_label_sanitize_keeps_R:
  assumes d: "is_12 d" and a: "list_ex is_alnum s"
  shows "suffix [CHR ''_'', CHR ''R'', d] (tree_label_sanitize (s @ [CHR ''_'', CHR ''R'', d]))"
proof -
  let ?U = "\<lambda>c. c = CHR ''_''"
  let ?N = "\<lambda>c. \<not> is_word c"
  have wd: "is_word d" "is_word (CHR ''R'')" "is_word (CHR ''_'')" "d \<noteq> CHR ''_''"
    using d by (auto simp: is_12_def is_word_def is_alnum_def is_upper_az_def is_lower_az_def is_digit_def)
  have nomatch: "match_12_rev (d # CHR ''R'' # CHR ''_'' # rev s) = None" by simp
  have dn: "d \<noteq> CHR 0x0A" using d by (auto simp: is_12_def)
  have st: "strip_suffix_12 (s @ [CHR ''_'', CHR ''R'', d]) = s @ [CHR ''_'', CHR ''R'', d]"
    using dn by (simp add: strip_suffix_12_def sub_at_end_def)
  define t where "t = sub_runs ?N False s"
  have n: "sub_runs ?N False (s @ [CHR ''_'', CHR ''R'', d]) = t @ [CHR ''_'', CHR ''R'', d]"
    using wd unfolding t_def by (simp add: sub_runs_append)
  define v where "v = sub_runs ?U False (t @ ''_'')"
  have "sub_runs ?U False ((t @ ''_'') @ [CHR ''R'', d]) = v @ [CHR ''R'', d]"
    using wd(4) unfolding v_def by (intro sub_runs_append) simp
  then have u: "sub_runs ?U False (t @ [CHR ''_'', CHR ''R'', d]) = v @ [CHR ''R'', d]" by simp
  have col: "collapse_label (s @ [CHR ''_'', CHR ''R'', d]) = dropWhile ?U v @ [CHR ''R'', d]"
    using wd(4) by (simp add: collapse_label_def n u strip_chars_snoc2)
  have nau: "\<not> is_alnum (CHR ''_'')"
    by (simp add: is_alnum_def is_upper_az_def is_lower_az_def is_digit_def)
  have "filter is_alnum v = filter is_alnum (t @ ''_'')"
    unfolding v_def using nau by (intro sub_runs_filter_alnum) auto
  also have "\<dots> = filter is_alnum t" using nau by simp
  also have "\<dots> = filter is_alnum s"
    unfolding t_def by (rule sub_runs_filter_alnum) (simp add: is_word_def)
  finally have fa: "filter is_alnum v = filter is_alnum s" .
  from a have "filter is_alnum s \<noteq> []" by (auto simp: list_ex_iff filter_empty_conv)
  with fa have "filter is_alnum v \<noteq> []" by simp
  then obtain c where c: "c \<in> set v" "is_alnum c" by (auto simp: filter_empty_conv)
  with nau have "c \<noteq> CHR ''_''" by auto
  with c(1) have dne: "dropWhile ?U v \<noteq> []" by (auto simp: dropWhile_eq_Nil_conv)
  then have ld: "last (dropWhile ?U v) = last v" by (rule last_dropWhile)
  have "last v = CHR ''_''"
    using sub_runs_underscore_snoc[of False t] unfolding v_def by blast
  with ld have "last (dropWhile ?U v) = CHR ''_''" by simp
  with dne have "dropWhile ?U v = butlast (dropWhile ?U v) @ ''_''"
    by (metis append_butlast_last_id)
  with col have "collapse_label (s @ [CHR ''_'', CHR ''R'', d])
      = butlast (dropWhile ?U v) @ [CHR ''_'', CHR ''R'', d]" by simp
  then have "tree_label_sanitize (s @ [CHR ''_'', CHR ''R'', d])
      = butlast (dropWhile ?U v) @ [CHR ''_'', CHR ''R'', d]"
    by (simp add: tree_label_sanitize_def st or_NA_def)
  then show ?thesis by (simp add: suffix_def)
qed

lemma tree_label_sanitize_drops_12:
  "is_12 d \<Longrightarrow> tree_label_sanitize (s @ [CHR ''_'', d]) = or_NA (collapse_label s)"
  by (simp add: tree_label_sanitize_def strip_suffix_12_def sub_at_end_def)

lemma normalize_msa_id_drops_R:
  assumes d: "is_12 d"
  shows "normalize_msa_id (s @ [CHR ''_'', CHR ''R'', d]) = dropWhile is_space s"
proof -
  have sp: "\<not> is_space d" "\<not> is_space (CHR ''R'')" "\<not> is_space (CHR ''_'')"
    using d by (auto simp: is_12_def is_space_def)
  have "dropWhile is_space (s @ [CHR ''_'', CHR ''R'', d]) = dropWhile is_space s @ [CHR ''_'', CHR ''R'', d]"
    using sp(3) by (rule dropWhile_append_keep)
  then have "py_strip (s @ [CHR ''_'', CHR ''R'', d]) = dropWhile is_space s @ [CHR ''_'', CHR ''R'', d]"
    using sp(1) by (simp add: py_strip_def strip_chars_def)
  then show ?thesis using d by (simp add: normalize_msa_id_def sub_at_end_def)
qed

lemma normalize_msa_id_drops_12:
  assumes d: "is_12 d"
  shows "normalize_msa_id (s @ [CHR ''_'', d]) = dropWhile is_space s"
proof -
  have sp: "\<not> is_space d" "\<not> is_space (CHR ''_'')"
    using d by (auto simp: is_12_def is_space_def)
  have "dropWhile is_space (s @ [CHR ''_'', d]) = dropWhile is_space s @ [CHR ''_'', d]"
    using sp(2) by (rule dropWhile_append_keep)
  then have st: "py_strip (s @ [CHR ''_'', d]) = dropWhile is_space s @ [CHR ''_'', d]"
    using sp(1) by (simp add: py_strip_def strip_chars_def)
  have m: "match_R12_rev (d # CHR ''_'' # r) = Some r" for r
    using d by (cases r) auto
  show ?thesis by (simp add: normalize_msa_id_def sub_at_end_def st m)
qed

text \<open>
  Claim C8, as amended. tree_label_sanitize first removes a trailing \<open>_1\<close> or \<open>_2\<close>, and
  only these: a text that ends in \<open>_1\<close> or \<open>_2\<close> is sanitized as the text before the
  suffix is collapsed. A trailing \<open>_R1\<close> or \<open>_R2\<close> is not removed: where an
  alphanumeric character comes before it, the sanitized label still ends in \<open>_R1\<close> or
  \<open>_R2\<close>, and \<open>sample_R1\<close> is sanitized to itself. It is normalize_msa_id that removes
  each of the four tokens \<open>_R1\<close>, \<open>_R2\<close>, \<open>_1\<close>, \<open>_2\<close>, together with the white space
  before the text.
\<close>

theorem tree_label_sanitize_pair_suffix:
  "tree_label_sanitize (s @ ''_1'') = or_NA (collapse_label s) \<and>
   tree_label_sanitize (s @ ''_2'') = or_NA (collapse_label s) \<and>
   (list_ex is_alnum s \<longrightarrow>
      suffix ''_R1'' (tree_label_sanitize (s @ ''_R1'')) \<and>
      suffix ''_R2'' (tree_label_sanitize (s @ ''_R2''))) \<and>
   tree_label_sanitize ''sample_R1'' = ''sample_R1'' \<and>
   normalize_msa_id (s @ ''_R1'') = dropWhile is_space s \<and>
   normalize_msa_id (s @ ''_R2'') = dropWhile is_space s \<and>
   normalize_msa_id (s @ ''_1'') = dropWhile is_space s \<and>
   normalize_msa_id (s @ ''_2'') = dropWhile is_space s"
proof -
  have ex: "tree_label_sanitize ''sample_R1'' = ''sample_R1''" by code_simp
  have i: "is_12 (CHR ''1'')" "is_12 (CHR ''2'')" by (simp_all add: is_12_def)
  from ex tree_label_sanitize_drops_12[OF i(1), of s] tree_label_sanitize_drops_12[OF i(2), of s]
    tree_label_sanitize_keeps_R[OF i(1), of s] tree_label_sanitize_keeps_R[OF i(2), of s]
    normalize_msa_id_drops_R[OF i(1), of s] normalize_msa_id_drops_R[OF i(2), of s]
    normalize_msa_id_drops_12[OF i(1), of s] normalize_msa_id_drops_12[OF i(2), of s]
  show ?thesis by simp
qed

theorem tree_label_sanitize_pair_suffix_witness:
  "list_ex is_alnum ''sample'' \<and> suffix ''_R1'' (tree_label_sanitize (''sample'' @ ''_R1''))
    \<and> normalize_msa_id (''sample'' @ ''_R1'') = ''sample''
    \<and> normalize_msa_id (''sample'' @ ''_2'') = ''sample''"
proof -
  have h: "list_ex is_alnum ''sample''" by code_simp
  have e: "dropWhile is_space ''sample'' = ''sample''" by code_simp
  note t = tree_label_sanitize_pair_suffix [of "''sample''"]
  from t h have 1: "suffix ''_R1'' (tree_label_sanitize (''sample'' @ ''_R1''))" by blast
  from t have 2: "normalize_msa_id (''sample'' @ ''_R1'') = dropWhile is_space ''sample''"
    by blast
  from t have 3: "normalize_msa_id (''sample'' @ ''_2'') = dropWhile is_space ''sample''"
    by blast
  from h 1 2 [unfolded e] 3 [unfolded e] show ?thesis by blast
qed

text \<open>The claim as stated fails: \<open>sample_R1\<close> keeps its suffix.\<close>

theorem tree_label_sanitize_keeps_R1: "suffix ''_R1'' (tree_label_sanitize ''sample_R1'')"
  by code_simp

section \<open>Unique leaf names\<close>

text \<open>
  The suffix rule: the name at a position is left as it is when it occurs there for the
  first time, and gets the number of its occurrences up to there as a suffix otherwise.
\<close>

lemma unique_loop_out:
  "unique_loop counts out labels = out @ unique_loop counts [] labels"
proof (induction labels arbitrary: counts out)
  case Nil
  show ?case by simp
next
  case (Cons l ls)
  define counts' where "counts' = counts(l := counts l + 1)"
  define x where "x = (if counts' l = 1 then l else l @ ''_'' @ str_nat (counts' l))"
  have "unique_loop counts out (l # ls) = unique_loop counts' (out @ [x]) ls"
    by (simp add: Let_def counts'_def x_def)
  also have "\<dots> = (out @ [x]) @ unique_loop counts' [] ls" by (rule Cons)
  also have "\<dots> = out @ unique_loop counts' [x] ls" using Cons[of counts' "[x]"] by simp
  also have "unique_loop counts' [x] ls = unique_loop counts [] (l # ls)"
    by (simp add: Let_def counts'_def x_def)
  finally show ?case .
qed

lemma unique_loop_length: "length (unique_loop counts out labels) = length out + length labels"
  by (induction labels arbitrary: counts out) (auto simp: Let_def)

lemma unique_loop_nth:
  "i < length labels \<Longrightarrow>
   unique_loop counts [] labels ! i =
     (let k = counts (labels ! i) + count_list (take (Suc i) labels) (labels ! i)
      in if k = 1 then labels ! i else labels ! i @ ''_'' @ str_nat k)"
proof (induction labels arbitrary: counts i)
  case Nil
  then show ?case by simp
next
  case (Cons l ls)
  define counts' where "counts' = counts(l := counts l + 1)"
  define x where "x = (if counts' l = 1 then l else l @ ''_'' @ str_nat (counts' l))"
  have "unique_loop counts [] (l # ls) = unique_loop counts' [x] ls"
    by (simp add: Let_def counts'_def x_def)
  then have step: "unique_loop counts [] (l # ls) = x # unique_loop counts' [] ls"
    using unique_loop_out[of counts' "[x]" ls] by simp
  have x0: "x = (let k = counts l + 1 in if k = 1 then l else l @ ''_'' @ str_nat k)"
    by (simp add: x_def counts'_def Let_def)
  show ?case
  proof (cases i)
    case 0
    then show ?thesis unfolding step by (simp add: x0 Let_def)
  next
    case (Suc j)
    with Cons.prems have j: "j < length ls" by simp
    have "counts' (ls ! j) + count_list (take (Suc j) ls) (ls ! j)
        = counts (ls ! j) + count_list (take (Suc (Suc j)) (l # ls)) (ls ! j)"
      by (simp add: counts'_def)
    with Cons.IH[OF j, of counts'] Suc show ?thesis unfolding step by (simp add: Let_def)
  qed
qed

lemma ensure_unique_tree_labels_nth:
  "i < length labels \<Longrightarrow>
   ensure_unique_tree_labels labels ! i =
     (let k = count_list (take (Suc i) labels) (labels ! i)
      in if k = 1 then labels ! i else labels ! i @ ''_'' @ str_nat k)"
  using unique_loop_nth[of i labels "\<lambda>label. 0"] by (simp add: ensure_unique_tree_labels_def)

lemma ensure_unique_tree_labels_length:
  "length (ensure_unique_tree_labels labels) = length labels"
  by (simp add: ensure_unique_tree_labels_def unique_loop_length)

text \<open>
  Claim C3. ensure_unique_tree_labels appends \<open>_2\<close>, \<open>_3\<close>, ... to the second, third, ...
  occurrence of a name, and the claim is that the final names are pairwise distinct. The
  code does not reach that: a name made by the suffix can be a name that is already
  there. A tree with the leaves \<open>A\<close>, \<open>A_1\<close>, \<open>A_2\<close>, \<open>A_3\<close> gets the candidate names
  \<open>A\<close>, \<open>A\<close>, \<open>A\<close>, \<open>A_3\<close> and the final names \<open>A\<close>, \<open>A_2\<close>, \<open>A_3\<close>, \<open>A_3\<close>.
\<close>

theorem ensure_unique_tree_labels_clash:
  "ensure_unique_tree_labels [''A'', ''A'', ''A'', ''A_3''] = [''A'', ''A_2'', ''A_3'', ''A_3''] \<and>
   \<not> distinct (ensure_unique_tree_labels [''A'', ''A'', ''A'', ''A_3'']) \<and>
   rewrite_tree_labels Map.empty Map.empty [''A'', ''A_1'', ''A_2'', ''A_3'']
     = Inr [''A'', ''A_2'', ''A_3'', ''A_3'']"
  by code_simp

section \<open>The permissive loaders keep the last entry\<close>

lemma codes_loop_append:
  "load_five_letter_codes_loop m (xs @ ys)
     = load_five_letter_codes_loop (load_five_letter_codes_loop m xs) ys"
  by (induction xs arbitrary: m) (auto split: five_letter_line.splits simp: Let_def)

lemma codes_loop_untouched:
  "\<not> list_ex (binds_key k) ys \<Longrightarrow> load_five_letter_codes_loop m ys k = m k"
  by (induction ys arbitrary: m)
     (auto split: five_letter_line.splits simp: Let_def binds_key_def)

lemma codes_loop_last:
  assumes "parse_five_letter_line l = Entry taxon code"
    and "\<not> list_ex (binds_key (clean_alnum taxon)) after"
    and "clean_alnum taxon \<noteq> []"
  shows "load_five_letter_codes_loop m (before @ l # after) (clean_alnum taxon) = Some code"
proof -
  let ?m = "load_five_letter_codes_loop m before"
  have "load_five_letter_codes_loop m (before @ l # after)
      = load_five_letter_codes_loop ?m (l # after)" by (rule codes_loop_append)
  also have "\<dots> = load_five_letter_codes_loop (?m(clean_alnum taxon \<mapsto> code)) after"
    using assms(1,3) by simp
  finally show ?thesis using assms(2) by (simp add: codes_loop_untouched)
qed

lemma five_loop_append:
  "list_all well_formed_line xs \<Longrightarrow>
   \<exists>maps. load_five_letter_loop n (m1, m2) xs = Inr maps \<and>
     load_five_letter_loop n (m1, m2) (xs @ ys) = load_five_letter_loop (n + length xs) maps ys"
proof (induction xs arbitrary: n m1 m2)
  case Nil
  show ?case by simp
next
  case (Cons x xs)
  from Cons.prems have rest: "list_all well_formed_line xs" by simp
  from Cons.prems have wf: "parse_five_letter_line x \<noteq> Malformed"
    by (simp add: well_formed_line_def)
  show ?case
  proof (cases "parse_five_letter_line x")
    case Passed
    with Cons.IH[OF rest, of "n + 1" m1 m2] show ?thesis by simp
  next
    case Malformed
    with wf show ?thesis by simp
  next
    case (Entry taxon code)
    define M1 where "M1 = m1(clean_alnum taxon \<mapsto> code)"
    define M2 where "M2 = m2(code \<mapsto> taxon)"
    have step: "load_five_letter_loop n (m1, m2) (x # zs) = load_five_letter_loop (n + 1) (M1, M2) zs"
      for zs using Entry by (simp add: M1_def M2_def)
    from Cons.IH[OF rest, of "n + 1" M1 M2] obtain maps where
      "load_five_letter_loop (n + 1) (M1, M2) xs = Inr maps"
      "load_five_letter_loop (n + 1) (M1, M2) (xs @ ys)
         = load_five_letter_loop (n + 1 + length xs) maps ys" by blast
    then show ?thesis unfolding append_Cons step by simp
  qed
qed

lemma five_loop_untouched:
  "list_all well_formed_line ys \<Longrightarrow>
   \<exists>m1' m2'. load_five_letter_loop n (m1, m2) ys = Inr (m1', m2') \<and>
     (\<not> list_ex (binds_key k) ys \<longrightarrow> m1' k = m1 k) \<and>
     (\<not> list_ex (binds_code c) ys \<longrightarrow> m2' c = m2 c)"
proof (induction ys arbitrary: n m1 m2)
  case Nil
  show ?case by simp
next
  case (Cons x xs)
  from Cons.prems have rest: "list_all well_formed_line xs" by simp
  from Cons.prems have wf: "parse_five_letter_line x \<noteq> Malformed"
    by (simp add: well_formed_line_def)
  show ?case
  proof (cases "parse_five_letter_line x")
    case Passed
    with Cons.IH[OF rest, of "n + 1" m1 m2] show ?thesis
      by (auto simp: binds_key_def binds_code_def)
  next
    case Malformed
    with wf show ?thesis by simp
  next
    case (Entry taxon code)
    define M1 where "M1 = m1(clean_alnum taxon \<mapsto> code)"
    define M2 where "M2 = m2(code \<mapsto> taxon)"
    have step: "load_five_letter_loop n (m1, m2) (x # zs) = load_five_letter_loop (n + 1) (M1, M2) zs"
      for zs using Entry by (simp add: M1_def M2_def)
    have M1k: "M1 k = m1 k" if "\<not> binds_key k x"
      using that Entry by (auto simp: M1_def binds_key_def)
    have M2c: "M2 c = m2 c" if "\<not> binds_code c x"
      using that Entry by (auto simp: M2_def binds_code_def)
    from Cons.IH[OF rest, of "n + 1" M1 M2] obtain m1' m2' where
      "load_five_letter_loop (n + 1) (M1, M2) xs = Inr (m1', m2')"
      "\<not> list_ex (binds_key k) xs \<longrightarrow> m1' k = M1 k"
      "\<not> list_ex (binds_code c) xs \<longrightarrow> m2' c = M2 c" by blast
    with M1k M2c show ?thesis unfolding step by auto
  qed
qed

lemma five_loop_last:
  assumes e: "parse_five_letter_line l = Entry taxon code"
    and wf: "list_all well_formed_line (before @ l # after)"
  shows "\<exists>m1 m2. load_five_letter (before @ l # after) = Inr (m1, m2) \<and>
     (\<not> list_ex (binds_key (clean_alnum taxon)) after \<longrightarrow> m1 (clean_alnum taxon) = Some code) \<and>
     (\<not> list_ex (binds_code code) after \<longrightarrow> m2 code = Some taxon)"
proof -
  from wf have wb: "list_all well_formed_line before" and wa: "list_all well_formed_line after"
    by auto
  from five_loop_append[OF wb, of 1 Map.empty Map.empty "l # after"]
  obtain a b where ab: "load_five_letter_loop 1 (Map.empty, Map.empty) (before @ l # after)
      = load_five_letter_loop (1 + length before) (a, b) (l # after)" by (cases, auto)
  define M1 where "M1 = a(clean_alnum taxon \<mapsto> code)"
  define M2 where "M2 = b(code \<mapsto> taxon)"
  have step: "load_five_letter_loop (1 + length before) (a, b) (l # after)
      = load_five_letter_loop (1 + length before + 1) (M1, M2) after"
    using e by (simp add: M1_def M2_def)
  from five_loop_untouched[OF wa, of "1 + length before + 1" M1 M2 "clean_alnum taxon" code]
  obtain m1 m2 where r:
    "load_five_letter_loop (1 + length before + 1) (M1, M2) after = Inr (m1, m2)"
    "\<not> list_ex (binds_key (clean_alnum taxon)) after \<longrightarrow> m1 (clean_alnum taxon) = M1 (clean_alnum taxon)"
    "\<not> list_ex (binds_code code) after \<longrightarrow> m2 code = M2 code"
    by blast
  have "M1 (clean_alnum taxon) = Some code" "M2 code = Some taxon"
    by (simp_all add: M1_def M2_def)
  with r have
    "\<not> list_ex (binds_key (clean_alnum taxon)) after \<longrightarrow> m1 (clean_alnum taxon) = Some code"
    "\<not> list_ex (binds_code code) after \<longrightarrow> m2 code = Some taxon"
    by simp_all
  moreover have "load_five_letter (before @ l # after) = Inr (m1, m2)"
    unfolding load_five_letter_def by (simp only: ab step r(1))
  ultimately show ?thesis by blast
qed

text \<open>
  Claim C4, as amended. The permissive loaders keep the last occurrence, not the first:
  whatever lines come before, the key of an entry is bound to the code of that entry
  when no later line binds the key again. load_five_letter_codes passes over entries
  with an empty key and over malformed lines; load_five_letter returns both
  dictionaries when no line is malformed, and a code is bound to the taxon of its last
  entry in the same way. Two entries with the same key or code never raise.
\<close>

theorem permissive_loaders_keep_last:
  assumes "parse_five_letter_line l = Entry taxon code"
  shows "(clean_alnum taxon \<noteq> [] \<and> \<not> list_ex (binds_key (clean_alnum taxon)) after \<longrightarrow>
           load_five_letter_codes (before @ l # after) (clean_alnum taxon) = Some code) \<and>
         (list_all well_formed_line (before @ l # after) \<longrightarrow>
           (\<exists>m1 m2. load_five_letter (before @ l # after) = Inr (m1, m2) \<and>
              (\<not> list_ex (binds_key (clean_alnum taxon)) after \<longrightarrow>
                 m1 (clean_alnum taxon) = Some code) \<and>
              (\<not> list_ex (binds_code code) after \<longrightarrow> m2 code = Some taxon)))"
  using codes_loop_last[OF assms, of after Map.empty before] five_loop_last[OF assms, of before after]
  by (auto simp: load_five_letter_codes_def)

text \<open>
  The claim as stated fails: of two lines with the key \<open>Ab\<close>, both loaders keep the
  code of the second.
\<close>

theorem permissive_loaders_not_first:
  "load_five_letter_codes [''A b'' @ [CHR 0x09] @ ''s0001'', ''Ab'' @ [CHR 0x09] @ ''s0002''] ''Ab''
     = Some ''s0002'' \<and>
   fst (projr (load_five_letter [''A b'' @ [CHR 0x09] @ ''s0001'', ''Ab'' @ [CHR 0x09] @ ''s0002''])) ''Ab''
     = Some ''s0002''"
  by code_simp

theorem permissive_loaders_keep_last_witness:
  "parse_five_letter_line (''Ab'' @ [CHR 0x09] @ ''s0002'') = Entry ''Ab'' ''s0002'' \<and>
   load_five_letter_codes ([''A b'' @ [CHR 0x09] @ ''s0001''] @ (''Ab'' @ [CHR 0x09] @ ''s0002'') # [''# end''])
     ''Ab'' = Some ''s0002'' \<and>
   (\<exists>m1 m2. load_five_letter ([''A b'' @ [CHR 0x09] @ ''s0001''] @ (''Ab'' @ [CHR 0x09] @ ''s0002'') # [''# end''])
       = Inr (m1, m2) \<and> m1 ''Ab'' = Some ''s0002'' \<and> m2 ''s0002'' = Some ''Ab'')"
proof -
  have p: "parse_five_letter_line (''Ab'' @ [CHR 0x09] @ ''s0002'') = Entry ''Ab'' ''s0002''"
    by code_simp
  have k: "clean_alnum ''Ab'' \<noteq> [] \<and> \<not> list_ex (binds_key (clean_alnum ''Ab'')) [''# end'']"
    by code_simp
  have c: "\<not> list_ex (binds_code ''s0002'') [''# end'']" by code_simp
  have w: "list_all well_formed_line
     ([''A b'' @ [CHR 0x09] @ ''s0001''] @ (''Ab'' @ [CHR 0x09] @ ''s0002'') # [''# end''])"
    by code_simp
  have a: "clean_alnum ''Ab'' = ''Ab''" by code_simp
  from permissive_loaders_keep_last [OF p, of "[''# end'']" "[''A b'' @ [CHR 0x09] @ ''s0001'']"] p k c w
  show ?thesis unfolding a by blast
qed

section \<open>Gene selection\<close>

lemma set_uniq_first: "set (uniq_first xs) = set xs"
  by (induction xs rule: uniq_first.induct) auto

lemma distinct_uniq_first: "distinct (uniq_first xs)"
  by (induction xs rule: uniq_first.induct) (auto simp: set_uniq_first)

lemma set_value_counts: "set (value_counts xs) = (\<lambda>g. (g, count_list xs g)) ` set xs"
  by (simp add: value_counts_def set_uniq_first)

lemma length_value_counts: "length (value_counts xs) = card (set xs)"
proof -
  have "length (value_counts xs) = length (uniq_first xs)" by (simp add: value_counts_def)
  also have "\<dots> = card (set (uniq_first xs))"
    by (simp add: distinct_card distinct_uniq_first)
  finally show ?thesis by (simp add: set_uniq_first)
qed

lemma value_counts_Nil: "(value_counts xs = []) = (xs = [])"
proof -
  have "(value_counts xs = []) = (set (value_counts xs) = {})" by simp
  then show ?thesis by (simp add: set_value_counts)
qed

lemma sort_key_head_least:
  assumes "sort_key f xs = y # ys"
  shows "y \<in> set xs \<and> (\<forall>x \<in> set xs. f y \<le> f x)"
proof -
  have s: "set (y # ys) = set xs" using assms by (metis set_sort)
  have "sorted (map f (y # ys))" using assms by (metis sorted_sort_key)
  then have "\<forall>x \<in> set ys. f y \<le> f x" by simp
  with s show ?thesis by auto
qed

lemma choose_gene_name_spec:
  assumes ne: "xs \<noteq> []"
  shows "\<exists>chosen. choose_gene_name xs = Inr (chosen, Max (count_list xs ` set xs), card (set xs)) \<and>
      chosen \<in> set xs \<and> count_list xs chosen = Max (count_list xs ` set xs) \<and>
      (\<forall>g \<in> set xs. count_list xs g = Max (count_list xs ` set xs) \<longrightarrow> casefold chosen \<le> casefold g)"
proof -
  let ?M = "Max (count_list xs ` set xs)"
  let ?counts = "value_counts xs"
  have snd_img: "snd ` set ?counts = count_list xs ` set xs"
    by (auto simp: set_value_counts image_iff)
  have cne: "?counts \<noteq> []" using ne by (simp add: value_counts_Nil)
  have "?M \<in> count_list xs ` set xs" using ne by (intro Max_in) auto
  then obtain g0 where g0: "g0 \<in> set xs" "count_list xs g0 = ?M" by auto
  let ?ws = "map fst (filter (\<lambda>(g, c). c = ?M) ?counts)"
  have ws: "set ?ws = {g \<in> set xs. count_list xs g = ?M}"
    by (auto simp: set_value_counts image_iff)
  with g0 have "set (sort_key casefold ?ws) \<noteq> {}" by auto
  then obtain chosen others where so: "sort_key casefold ?ws = chosen # others"
    by (cases "sort_key casefold ?ws") auto
  from sort_key_head_least[OF so]
  have "chosen \<in> set ?ws \<and> (\<forall>x \<in> set ?ws. casefold chosen \<le> casefold x)" .
  then have "chosen \<in> {g \<in> set xs. count_list xs g = ?M} \<and>
      (\<forall>x \<in> {g \<in> set xs. count_list xs g = ?M}. casefold chosen \<le> casefold x)"
    unfolding ws .
  then have ch: "chosen \<in> set xs" "count_list xs chosen = ?M"
    "\<forall>g \<in> set xs. count_list xs g = ?M \<longrightarrow> casefold chosen \<le> casefold g"
    by auto
  have "choose_gene_name xs = Inr (chosen, ?M, card (set xs))"
    using cne so by (simp add: choose_gene_name_def Let_def snd_img length_value_counts)
  with ch show ?thesis by blast
qed

lemma count_le_Max: "count_list xs g \<le> Max (count_list xs ` set xs)"
proof (cases "g \<in> set xs")
  case True
  then show ?thesis by (intro Max_ge) auto
next
  case False
  then show ?thesis by (simp add: count_list_0_iff)
qed

lemma choose_gene_name_majority:
  assumes g: "g \<in> set xs"
    and maj: "\<forall>h \<in> set xs. h \<noteq> g \<longrightarrow> count_list xs h < count_list xs g"
    and perm: "mset ys = mset xs"
  shows "choose_gene_name ys = Inr (g, count_list xs g, card (set xs))"
proof -
  have cnt: "count_list ys x = count_list xs x" for x
    using perm by (metis count_mset)
  have st: "set ys = set xs" using perm by (metis set_mset_mset)
  with g have ne: "ys \<noteq> []" by auto
  from choose_gene_name_spec[OF ne] obtain chosen where
    c: "choose_gene_name ys = Inr (chosen, Max (count_list ys ` set ys), card (set ys))"
       "chosen \<in> set ys" "count_list ys chosen = Max (count_list ys ` set ys)" by blast
  have "count_list ys g \<le> count_list ys chosen" using c(3) count_le_Max[of ys g] by simp
  then have "count_list xs g \<le> count_list xs chosen" by (simp add: cnt)
  with maj c(2) st have eq: "chosen = g" by force
  with c(1,3) show ?thesis by (simp add: cnt st)
qed

text \<open>
  Claim C5. For a series that is not empty, choose_gene_name returns a name of the
  series whose number of occurrences is the largest; among the names with that number
  no name comes before it in the order of the casefolded names. A name that occurs more
  often than every other name is returned for every permutation of the rows. A tie
  among \<open>b\<close>, \<open>A\<close>, \<open>c\<close> gives \<open>A\<close>.
\<close>

theorem choose_gene_name_most_frequent:
  "(gene_series \<noteq> [] \<longrightarrow>
     (\<exists>chosen max_count n_unique.
        choose_gene_name gene_series = Inr (chosen, max_count, n_unique) \<and>
        chosen \<in> set gene_series \<and>
        count_list gene_series chosen = max_count \<and>
        (\<forall>g. count_list gene_series g \<le> max_count) \<and>
        (\<forall>g \<in> set gene_series. count_list gene_series g = max_count
            \<longrightarrow> casefold chosen \<le> casefold g))) \<and>
   (g \<in> set gene_series \<and>
    (\<forall>h \<in> set gene_series. h \<noteq> g \<longrightarrow> count_list gene_series h < count_list gene_series g) \<and>
    mset permuted = mset gene_series
      \<longrightarrow> (\<exists>max_count n_unique. choose_gene_name permuted = Inr (g, max_count, n_unique))) \<and>
   choose_gene_name [''b'', ''A'', ''c''] = Inr (''A'', 1, 3)"
proof -
  have ex: "choose_gene_name [''b'', ''A'', ''c''] = Inr (''A'', 1, 3)" by code_simp
  have gen: "\<exists>chosen max_count n_unique.
        choose_gene_name gene_series = Inr (chosen, max_count, n_unique) \<and>
        chosen \<in> set gene_series \<and>
        count_list gene_series chosen = max_count \<and>
        (\<forall>g. count_list gene_series g \<le> max_count) \<and>
        (\<forall>g \<in> set gene_series. count_list gene_series g = max_count
            \<longrightarrow> casefold chosen \<le> casefold g)" if "gene_series \<noteq> []"
    using choose_gene_name_spec[OF that] count_le_Max[of gene_series] by blast
  from ex gen choose_gene_name_majority[of g gene_series permuted] show ?thesis by blast
qed

theorem choose_gene_name_most_frequent_witness:
  "[''x'', ''y'', ''x''] \<noteq> [] \<and> mset [''x'', ''x'', ''y''] = mset [''x'', ''y'', ''x''] \<and>
   (\<exists>max_count n_unique. choose_gene_name [''x'', ''x'', ''y''] = Inr (''x'', max_count, n_unique))"
proof -
  have a: "''x'' \<in> set [''x'', ''y'', ''x''] \<and>
    (\<forall>h \<in> set [''x'', ''y'', ''x'']. h \<noteq> ''x'' \<longrightarrow>
        count_list [''x'', ''y'', ''x''] h < count_list [''x'', ''y'', ''x''] ''x'')" by simp
  have m: "mset [''x'', ''x'', ''y''] = mset [''x'', ''y'', ''x'']" by simp
  from a m choose_gene_name_most_frequent [of "[''x'', ''y'', ''x'']" "''x''" "[''x'', ''x'', ''y'']"] show ?thesis by blast
qed

section \<open>The mapping table\<close>

text \<open>
  The order of rows of equal key is the only freedom of a sort: when the keys of the
  rows are distinct, every arrangement of the rows that is sorted by the key is the
  one of the model.
\<close>

lemma filter_key_distinct:
  assumes "distinct (map f zs)" "k \<in> set zs"
  shows "filter (\<lambda>x. f k = f x) zs = [k]"
  using assms
proof (induction zs)
  case Nil
  then show ?case by simp
next
  case (Cons z zs)
  show ?case
  proof (cases "k = z")
    case True
    from Cons.prems(1) have "\<forall>x \<in> set zs. f z \<noteq> f x" by auto
    then have "filter (\<lambda>x. f z = f x) zs = []" by (simp add: filter_empty_conv)
    with True show ?thesis by simp
  next
    case False
    with Cons.prems have k: "k \<in> set zs" and d: "distinct (map f zs)" by auto
    from Cons.prems(1) have "f z \<notin> f ` set zs" by simp
    with k have "f k \<noteq> f z" by (metis imageI)
    with Cons.IH[OF d k] show ?thesis by simp
  qed
qed

lemma sorted_by_distinct_keys_unique:
  assumes m: "mset ys = mset xs" and s: "sorted (map f ys)" and d: "distinct (map f xs)"
  shows "sort_key f xs = ys"
proof (rule properties_for_sort_key)
  show "mset ys = mset xs" by fact
  show "sorted (map f ys)" by fact
  fix k assume k: "k \<in> set ys"
  have "mset (map f ys) = mset (map f xs)" using m by simp
  with d have dy: "distinct (map f ys)" by (metis mset_eq_imp_distinct_iff)
  have kx: "k \<in> set xs" using k m by (metis set_mset_mset)
  show "filter (\<lambda>x. f k = f x) ys = filter (\<lambda>x. f k = f x) xs"
    by (simp add: filter_key_distinct[OF dy k] filter_key_distinct[OF d kx])
qed

lemma mapping_loop_total:
  assumes "set ogs \<subseteq> fst ` set work"
  shows "\<exists>recs confs. mapping_loop work records conflict_records ogs = Inr (records @ recs, confs)
           \<and> map fst recs = ogs"
  using assms
proof (induction ogs arbitrary: records conflict_records)
  case Nil
  show ?case by simp
next
  case (Cons og ogs)
  let ?group = "map snd (filter (\<lambda>(og', gene). og' = og) work)"
  from Cons.prems have "og \<in> fst ` set work" by simp
  then have "?group \<noteq> []" by (auto simp: filter_empty_conv)
  from choose_gene_name_spec[OF this] obtain chosen cnt n where
    ch: "choose_gene_name ?group = Inr (chosen, cnt, n)" by blast
  define conf' where "conf' =
    (if n > 1 then
       conflict_records @
         map (\<lambda>(name, c).
                \<lparr>conflict_og = og, gene_name = name, gene_count = c,
                 chosen_gene = chosen, chosen_count = cnt\<rparr>)
             (value_counts ?group)
     else conflict_records)"
  have step: "mapping_loop work records conflict_records (og # ogs)
      = mapping_loop work (records @ [(og, chosen)]) conf' ogs"
    using ch by (simp add: conf'_def)
  from Cons.prems have "set ogs \<subseteq> fst ` set work" by simp
  from Cons.IH[OF this, of "records @ [(og, chosen)]" conf'] obtain recs confs where
    r: "mapping_loop work (records @ [(og, chosen)]) conf' ogs
          = Inr ((records @ [(og, chosen)]) @ recs, confs)" "map fst recs = ogs" by blast
  show ?case
  proof (intro exI conjI)
    show "mapping_loop work records conflict_records (og # ogs)
        = Inr (records @ ((og, chosen) # recs), confs)"
      unfolding step r(1) by simp
    show "map fst ((og, chosen) # recs) = og # ogs" using r(2) by simp
  qed
qed

lemma build_mapping_rows:
  assumes ne: "(if keep then df else filter (\<lambda>(og, gene). gene \<noteq> []) df) \<noteq> []"
  shows "\<exists>mapping conflicts. build_mapping df keep = Inr (mapping, conflicts) \<and>
     set (map fst mapping) = fst ` set (if keep then df else filter (\<lambda>(og, gene). gene \<noteq> []) df) \<and>
     distinct (map fst mapping) \<and>
     sorted (map (\<lambda>(og, gene). og_sort_key og) mapping)"
proof -
  define work where "work = (if keep then df else filter (\<lambda>(og, gene). gene \<noteq> []) df)"
  have w: "(if \<not> keep then filter (\<lambda>(og, gene). gene \<noteq> []) df else df) = work"
    by (simp add: work_def)
  let ?ogs = "uniq_first (map fst work)"
  have "set ?ogs \<subseteq> fst ` set work" by (simp add: set_uniq_first)
  from mapping_loop_total[OF this, of "[]" "[]"] obtain recs confs where
    r: "mapping_loop work [] [] ?ogs = Inr (recs, confs)" "map fst recs = ?ogs" by auto
  let ?mapping = "sort_key (\<lambda>(og, gene). og_sort_key og) recs"
  have b: "build_mapping df keep = Inr (?mapping, confs)"
    using ne r(1) unfolding build_mapping_def w Let_def by (simp add: work_def[symmetric])
  have "mset (map fst ?mapping) = mset (map fst recs)" by simp
  then have m: "mset (map fst ?mapping) = mset ?ogs" using r(2) by simp
  then have "set (map fst ?mapping) = set ?ogs" by (rule mset_eq_setD)
  then have s: "set (map fst ?mapping) = fst ` set work" by (simp add: set_uniq_first)
  have d: "distinct (map fst ?mapping)"
    using m distinct_uniq_first[of "map fst work"] by (metis mset_eq_imp_distinct_iff)
  have so: "sorted (map (\<lambda>(og, gene). og_sort_key og) ?mapping)" by (rule sorted_sort_key)
  from b s d so show ?thesis unfolding work_def by blast
qed




lemma og_sort_key_cases:
  "(match_og a = None \<longrightarrow> og_sort_key a = (a, \<infinity>)) \<and>
   (match_og a = Some (l, d) \<longrightarrow> og_sort_key a = (l, enat (int_of_digits d)))"
  by (simp add: og_sort_key_def)

text \<open>
  Claim C7, as amended. The rows that build_mapping returns are sorted by og_sort_key,
  whose pairs compare by the text first and by the number second. \<open>OG9\<close> comes before
  \<open>OG10\<close>. Two OGs that match the pattern compare by their letters and then by their
  numbers; two OGs that do not match compare by the raw text. An OG that does not match
  comes after a matching OG exactly when its raw text is not below the letters of the
  matching OG, so it does not come after all matching OGs.
\<close>

theorem build_mapping_sorted_by_key:
  "(build_mapping df keep = Inr (mapping, conflicts) \<longrightarrow>
      sorted (map (\<lambda>(og, gene). og_sort_key og) mapping)) \<and>
   og_sort_key ''OG9'' < og_sort_key ''OG10'' \<and>
   (match_og a = Some (la, da) \<and> match_og b = Some (lb, db) \<longrightarrow>
      (og_sort_key a \<le> og_sort_key b)
        = (la < lb \<or> (la = lb \<and> int_of_digits da \<le> int_of_digits db))) \<and>
   (match_og a = None \<and> match_og b = None \<longrightarrow>
      (og_sort_key a \<le> og_sort_key b) = (a \<le> b)) \<and>
   (match_og a = None \<and> match_og b = Some (lb, db) \<longrightarrow>
      (og_sort_key b < og_sort_key a) = (lb \<le> a))"
proof -
  have s: "sorted (map (\<lambda>(og, gene). og_sort_key og) mapping)"
    if "build_mapping df keep = Inr (mapping, conflicts)"
  proof -
    from that have "(if keep then df else filter (\<lambda>(og, gene). gene \<noteq> []) df) \<noteq> []"
      by (auto simp: build_mapping_def split: if_splits)
    from build_mapping_rows[OF this] that show ?thesis by auto
  qed
  have e: "og_sort_key ''OG9'' < og_sort_key ''OG10''" by code_simp
  from s e show ?thesis by (auto simp: og_sort_key_def)
qed

text \<open>
  The claim as stated fails: \<open>A-1\<close> does not match the pattern and comes before \<open>OG1\<close>.
\<close>

theorem build_mapping_unmatched_first:
  "build_mapping [(''OG1'', ''g''), (''A-1'', ''h'')] False
     = Inr ([(''A-1'', ''h''), (''OG1'', ''g'')], [])"
  by code_simp

theorem build_mapping_sorted_by_key_witness:
  "build_mapping [(''OG10'', ''g''), (''A-1'', ''h''), (''OG9'', ''x'')] False
     = Inr ([(''A-1'', ''h''), (''OG9'', ''x''), (''OG10'', ''g'')], []) \<and>
   sorted (map (\<lambda>(og, gene). og_sort_key og) [(''A-1'', ''h''), (''OG9'', ''x''), (''OG10'', ''g'')]) \<and>
   match_og ''A-1'' = None \<and> match_og ''B-2'' = None \<and>
   match_og ''OG9'' = Some (''OG'', ''9'') \<and> match_og ''OG10'' = Some (''OG'', ''10'') \<and>
   \<not> og_sort_key ''OG9'' < og_sort_key ''A-1'' \<and>
   og_sort_key ''A-1'' \<le> og_sort_key ''B-2'' \<and>
   og_sort_key ''OG9'' \<le> og_sort_key ''OG10''"
proof -
  have b: "build_mapping [(''OG10'', ''g''), (''A-1'', ''h''), (''OG9'', ''x'')] False
     = Inr ([(''A-1'', ''h''), (''OG9'', ''x''), (''OG10'', ''g'')], [])" by code_simp
  have m: "match_og ''A-1'' = None \<and> match_og ''OG9'' = Some (''OG'', ''9'')" by code_simp
  have m2: "match_og ''B-2'' = None \<and> match_og ''OG10'' = Some (''OG'', ''10'')" by code_simp
  have n: "\<not> ''OG'' \<le> ''A-1''" by code_simp
  have n2: "''A-1'' \<le> ''B-2''" by code_simp
  have n3: "int_of_digits ''9'' \<le> int_of_digits ''10''" by code_simp
  from b m n build_mapping_sorted_by_key [of "[(''OG10'', ''g''), (''A-1'', ''h''), (''OG9'', ''x'')]" False
      "[(''A-1'', ''h''), (''OG9'', ''x''), (''OG10'', ''g'')]" "[]" "''A-1''" "''OG''" "''9''" "''OG9''" "''OG''" "''9''"]
  have 1: "sorted (map (\<lambda>(og, gene). og_sort_key og) [(''A-1'', ''h''), (''OG9'', ''x''), (''OG10'', ''g'')]) \<and>
      \<not> og_sort_key ''OG9'' < og_sort_key ''A-1''" by blast
  from m m2 n2 build_mapping_sorted_by_key [where a = "''A-1''" and b = "''B-2''"]
  have 2: "og_sort_key ''A-1'' \<le> og_sort_key ''B-2''" by blast
  from m m2 n3 build_mapping_sorted_by_key [where a = "''OG9''" and b = "''OG10''"
      and la = "''OG''" and da = "''9''" and lb = "''OG''" and db = "''10''"]
  have 3: "og_sort_key ''OG9'' \<le> og_sort_key ''OG10''" by blast
  from b m m2 1 2 3 show ?thesis by blast
qed

section \<open>The label lookup\<close>

lemma bind_candidate_collision:
  "candidate \<noteq> [] \<Longrightarrow> lk candidate = Some existing \<Longrightarrow> existing \<noteq> output_label
     \<Longrightarrow> bind_candidate output_label (lk, n) candidate = (lk, n + 1)"
  by (simp add: bind_candidate_def)

lemma bind_candidate_cases:
  "bind_candidate l (m, n) c =
     (if c = [] then (m, n)
      else if m c = None then (m(c \<mapsto> l), n)
      else if m c = Some l then (m, n)
      else (m, n + 1))"
  by (auto simp: bind_candidate_def fun_upd_idem split: option.splits)

lemma bind_fold:
  "\<exists>m'. foldl (\<lambda>st (l, c). bind_candidate l st c) (m, n) as
       = (m', n + length (filter (\<lambda>(l, c). c \<noteq> [] \<and> m' c \<noteq> Some l) as)) \<and>
     (\<forall>k. m' k = (case m k of Some v \<Rightarrow> Some v
                   | None \<Rightarrow> map_option fst (find (\<lambda>(l, c). c = k \<and> c \<noteq> []) as)))"
proof (induction as arbitrary: m n)
  case Nil
  show ?case by (auto split: option.splits)
next
  case (Cons a as)
  obtain l c where a: "a = (l, c)" by (cases a)
  obtain m1 n1 where s: "bind_candidate l (m, n) c = (m1, n1)" by (cases "bind_candidate l (m, n) c")
  from Cons.IH[of m1 n1] obtain m' where
    f: "foldl (\<lambda>st (l, c). bind_candidate l st c) (m1, n1) as
       = (m', n1 + length (filter (\<lambda>(l, c). c \<noteq> [] \<and> m' c \<noteq> Some l) as))"
    and k: "\<And>k. m' k = (case m1 k of Some v \<Rightarrow> Some v
                   | None \<Rightarrow> map_option fst (find (\<lambda>(l, c). c = k \<and> c \<noteq> []) as))"
    by blast
  have st: "foldl (\<lambda>st (l, c). bind_candidate l st c) (m, n) (a # as)
      = (m', n1 + length (filter (\<lambda>(l, c). c \<noteq> [] \<and> m' c \<noteq> Some l) as))"
    using f s a by simp
  have n1: "n1 = n + (if c \<noteq> [] \<and> m' c \<noteq> Some l then 1 else 0)"
    using s k[of c] by (auto simp: bind_candidate_cases split: if_splits option.splits)
  have mk: "m' k = (case m k of Some v \<Rightarrow> Some v
                   | None \<Rightarrow> map_option fst (find (\<lambda>(l, c). c = k \<and> c \<noteq> []) (a # as)))" for k
    using s k[of k] a by (auto simp: bind_candidate_cases split: if_splits option.splits)
  show ?case
  proof (intro exI conjI allI)
    show "foldl (\<lambda>st (l, c). bind_candidate l st c) (m, n) (a # as)
       = (m', n + length (filter (\<lambda>(l, c). c \<noteq> [] \<and> m' c \<noteq> Some l) (a # as)))"
      unfolding st using n1 a by simp
    show "m' k = (case m k of Some v \<Rightarrow> Some v
                   | None \<Rightarrow> map_option fst (find (\<lambda>(l, c). c = k \<and> c \<noteq> []) (a # as)))" for k
      by (rule mk)
  qed
qed


lemma foldl_inner:
  "foldl (bind_candidate l) st cs = foldl (\<lambda>st (l, c). bind_candidate l st c) st (map (\<lambda>c. (l, c)) cs)"
  by (induction cs arbitrary: st) auto

lemma foldl_rows:
  "foldl (lookup_row_step mc oc flm) st rs
     = foldl (\<lambda>st (l, c). bind_candidate l st c) st
         (attempts (List.map_filter (row_binding mc oc flm) rs))"
proof (induction rs arbitrary: st)
  case Nil
  show ?case by (simp add: map_filter_simps)
next
  case (Cons r rs)
  show ?case
  proof (cases "row_binding mc oc flm r")
    case None
    with Cons show ?thesis by (simp add: map_filter_simps lookup_row_step_def)
  next
    case (Some b)
    obtain l cs where b: "b = (l, cs)" by (cases b)
    with Some Cons show ?thesis
      by (simp add: map_filter_simps lookup_row_step_def foldl_inner)
  qed
qed

lemma find_attempts:
  "k \<noteq> [] \<Longrightarrow> map_option fst (find (\<lambda>(l, c). c = k \<and> c \<noteq> []) (attempts brs))
     = map_option fst (find (\<lambda>(l, cs). k \<in> set cs) brs)"
proof (induction brs)
  case Nil
  show ?case by simp
next
  case (Cons b brs)
  obtain l cs where b: "b = (l, cs)" by (cases b)
  have inner: "find (\<lambda>(l, c). c = k \<and> c \<noteq> []) (map (\<lambda>c. (l, c)) cs @ rest)
      = (if k \<in> set cs then Some (l, k) else find (\<lambda>(l, c). c = k \<and> c \<noteq> []) rest)" for rest
    using Cons.prems by (induction cs) auto
  show ?case using Cons b by (simp add: inner)
qed

lemma count_attempts:
  "length (filter (\<lambda>(l, c). P l c) (attempts brs))
     = sum_list (map (\<lambda>(l, cs). length (filter (P l) cs)) brs)"
proof (induction brs)
  case Nil
  show ?case by simp
next
  case (Cons b brs)
  obtain l cs where b: "b = (l, cs)" by (cases b)
  have "length (filter (\<lambda>(l, c). P l c) (map (\<lambda>c. (l, c)) cs)) = length (filter (P l) cs)"
    by (induction cs) auto
  with Cons b show ?case by simp
qed

text \<open>
  Claim C2, as amended. build_metadata_label_lookup fails when the match column is
  missing. Otherwise first write wins: a candidate that is not empty is bound to the
  output label of the first row that has it among its candidates, and to nothing when
  no row has it. An attempt to bind a bound candidate to another label leaves the
  dictionary as it is and adds one to the collision counter, so the counter is the
  number of pairs of a row and one of its candidates whose binding is not the label of
  the row. Two rows that share candidates and differ in their labels give as many
  collisions as they share candidates: one for one shared candidate.
\<close>

theorem label_lookup_first_write_wins:
  "(match_column \<notin> set (columns metadata) \<longrightarrow>
      build_metadata_label_lookup metadata match_column five_letter_map
        = Inl (ColumnNotFound match_column)) \<and>
   (match_column \<in> set (columns metadata) \<longrightarrow>
      (\<exists>lookup collisions.
         build_metadata_label_lookup metadata match_column five_letter_map
           = Inr (lookup, collisions) \<and>
         (\<forall>c. lookup c =
            (if c = [] then None
             else map_option fst
                    (find (\<lambda>(label, candidates). c \<in> set candidates)
                       (bound_rows metadata match_column five_letter_map)))) \<and>
         collisions =
           sum_list
             (map (\<lambda>(label, candidates).
                     length (filter (\<lambda>c. c \<noteq> [] \<and> lookup c \<noteq> Some label) candidates))
                (bound_rows metadata match_column five_letter_map)))) \<and>
   (candidate \<noteq> [] \<and> lk candidate = Some existing \<and> existing \<noteq> output_label \<longrightarrow>
      bind_candidate output_label (lk, n) candidate = (lk, n + 1))"
proof (intro conjI impI)
  assume "match_column \<notin> set (columns metadata)"
  then show "build_metadata_label_lookup metadata match_column five_letter_map
        = Inl (ColumnNotFound match_column)"
    by (simp add: build_metadata_label_lookup_def)
next
  assume "candidate \<noteq> [] \<and> lk candidate = Some existing \<and> existing \<noteq> output_label"
  then show "bind_candidate output_label (lk, n) candidate = (lk, n + 1)"
    by (simp add: bind_candidate_collision)
next
  assume mc: "match_column \<in> set (columns metadata)"
  let ?brs = "bound_rows metadata match_column five_letter_map"
  let ?oc = "if ''label'' \<in> set (columns metadata) then ''label'' else match_column"
  from bind_fold[of Map.empty 0 "attempts ?brs"] obtain m' where
    f: "foldl (\<lambda>st (l, c). bind_candidate l st c) (Map.empty, 0) (attempts ?brs)
       = (m', length (filter (\<lambda>(l, c). c \<noteq> [] \<and> m' c \<noteq> Some l) (attempts ?brs)))"
    and k: "\<And>k. m' k = map_option fst (find (\<lambda>(l, c). c = k \<and> c \<noteq> []) (attempts ?brs))"
    by auto
  have b: "build_metadata_label_lookup metadata match_column five_letter_map
      = Inr (m', length (filter (\<lambda>(l, c). c \<noteq> [] \<and> m' c \<noteq> Some l) (attempts ?brs)))"
    using mc f by (simp add: build_metadata_label_lookup_def Let_def foldl_rows bound_rows_def)
  have lk: "m' c = (if c = [] then None
             else map_option fst (find (\<lambda>(label, candidates). c \<in> set candidates) ?brs))" for c
  proof (cases "c = []")
    case True
    have "find (\<lambda>(l, c). c = [] \<and> c \<noteq> []) xs = None" for xs :: "(string \<times> string) list"
      by (induction xs) auto
    with True k[of c] show ?thesis by simp
  next
    case False
    with k[of c] find_attempts[OF False, of ?brs] show ?thesis by simp
  qed
  have cnt: "length (filter (\<lambda>(l, c). c \<noteq> [] \<and> m' c \<noteq> Some l) (attempts ?brs))
      = sum_list (map (\<lambda>(label, candidates).
                     length (filter (\<lambda>c. c \<noteq> [] \<and> m' c \<noteq> Some label) candidates)) ?brs)"
    by (rule count_attempts)
  show "\<exists>lookup collisions.
         build_metadata_label_lookup metadata match_column five_letter_map
           = Inr (lookup, collisions) \<and>
         (\<forall>c. lookup c =
            (if c = [] then None
             else map_option fst
                    (find (\<lambda>(label, candidates). c \<in> set candidates) ?brs))) \<and>
         collisions =
           sum_list
             (map (\<lambda>(label, candidates).
                     length (filter (\<lambda>c. c \<noteq> [] \<and> lookup c \<noteq> Some label) candidates))
                ?brs)"
    using b lk cnt by (intro exI[of _ m'] exI conjI allI) auto
qed


theorem label_lookup_first_write_wins_witness:
  "''label'' \<in> set (columns \<lparr>columns = [''label''],
        frame_rows = [[''label'' \<mapsto> ''a_1''], [''label'' \<mapsto> ''a_2'']]\<rparr>) \<and>
   (\<exists>lookup collisions.
      build_metadata_label_lookup
        \<lparr>columns = [''label''], frame_rows = [[''label'' \<mapsto> ''a_1''], [''label'' \<mapsto> ''a_2'']]\<rparr>
        ''label'' Map.empty = Inr (lookup, collisions) \<and>
      lookup ''a'' = Some ''a_1'' \<and> lookup ''a1'' = Some ''a_1'' \<and> lookup ''a2'' = Some ''a_2'' \<and>
      collisions = 1) \<and>
   build_metadata_label_lookup
     \<lparr>columns = [''label''], frame_rows = [[''label'' \<mapsto> ''a_1''], [''label'' \<mapsto> ''a_2'']]\<rparr>
     ''sample'' Map.empty = Inl (ColumnNotFound ''sample'') \<and>
   bind_candidate ''a_2'' ([''a'' \<mapsto> ''a_1''], 0) ''a'' = ([''a'' \<mapsto> ''a_1''], 0 + 1)"
proof -
  let ?md = "\<lparr>columns = [''label''],
        frame_rows = [[''label'' \<mapsto> ''a_1''], [''label'' \<mapsto> ''a_2'']]\<rparr>"
  have mc: "''label'' \<in> set (columns ?md)" by simp
  have br: "bound_rows ?md ''label'' Map.empty
      = [(''a_1'', [''a'', ''a1'']), (''a_2'', [''a'', ''a2''])]" by code_simp
  from label_lookup_first_write_wins [of "''label''" ?md Map.empty] mc obtain lookup collisions where
    b: "build_metadata_label_lookup ?md ''label'' Map.empty = Inr (lookup, collisions)"
    and l: "\<And>c. lookup c =
            (if c = [] then None
             else map_option fst
                    (find (\<lambda>(label, candidates). c \<in> set candidates)
                       (bound_rows ?md ''label'' Map.empty)))"
    and n: "collisions =
           sum_list
             (map (\<lambda>(label, candidates).
                     length (filter (\<lambda>c. c \<noteq> [] \<and> lookup c \<noteq> Some label) candidates))
                (bound_rows ?md ''label'' Map.empty))"
    by blast
  have l1: "lookup ''a'' = Some ''a_1''" unfolding l br by simp
  have l2: "lookup ''a1'' = Some ''a_1''" unfolding l br by simp
  have l3: "lookup ''a2'' = Some ''a_2''" unfolding l br by simp
  have c1: "collisions = 1" unfolding n br by (simp add: l1 l2 l3)
  have nc: "''sample'' \<notin> set (columns ?md)" by simp
  from nc label_lookup_first_write_wins [of "''sample''" ?md Map.empty]
  have e: "build_metadata_label_lookup ?md ''sample'' Map.empty = Inl (ColumnNotFound ''sample'')"
    by blast
  have h: "''a'' \<noteq> [] \<and> [''a'' \<mapsto> ''a_1''] ''a'' = Some ''a_1'' \<and> ''a_1'' \<noteq> ''a_2''" by simp
  from h label_lookup_first_write_wins [where candidate = "''a''" and lk = "[''a'' \<mapsto> ''a_1'']"
      and existing = "''a_1''" and output_label = "''a_2''" and n = 0]
  have st: "bind_candidate ''a_2'' ([''a'' \<mapsto> ''a_1''], 0) ''a'' = ([''a'' \<mapsto> ''a_1''], 0 + 1)"
    by blast
  from mc b l1 l2 l3 c1 e st show ?thesis by blast
qed

text \<open>
  The claim as stated fails: two rows with the accession \<open>S-1\<close> and different labels
  share the candidates \<open>S-1\<close> and \<open>S1\<close>, and the collision counter is 2.
\<close>

theorem label_lookup_two_collisions:
  "snd (projr (build_metadata_label_lookup
     \<lparr>columns = [''accession'', ''label''],
      frame_rows = [[''accession'' \<mapsto> ''S-1'', ''label'' \<mapsto> ''L1''],
                    [''accession'' \<mapsto> ''S-1'', ''label'' \<mapsto> ''L2'']]\<rparr>
     ''accession'' Map.empty)) = 2"
  by code_simp

section \<open>Blank rows of the metadata table\<close>


lemma py_strip_Nil: "py_strip [] = []"
  by (simp add: py_strip_def strip_chars_def)

lemma length_pad_row: "length raw \<le> length hdr \<Longrightarrow> length (pad_row hdr raw) = length hdr"
  by (simp add: pad_row_def)

lemma blank_cells_pad: "blank_cells (pad_row hdr raw) = blank_cells raw"
  by (auto simp: blank_cells_def pad_row_def py_strip_Nil list_all_iff)

lemma map_of_constant:
  "h \<in> fst ` set kvs \<Longrightarrow> \<forall>kv \<in> set kvs. snd kv = x \<Longrightarrow> map_of kvs h = Some x"
  by (induction kvs) auto

lemma blank_cells_skipped:
  assumes len: "length raw \<le> length hdr" and bl: "blank_cells raw"
  shows "skipped_row hdr raw"
proof -
  let ?cells = "map py_strip (pad_row hdr raw)"
  have lc: "length ?cells = length hdr" using len by (simp add: length_pad_row)
  have "blank_cells (pad_row hdr raw)" using bl by (simp add: blank_cells_pad)
  then have allnil: "\<forall>c \<in> set ?cells. c = []" by (auto simp: blank_cells_def list_all_iff)
  have vals: "\<forall>kv \<in> set (rev (zip hdr ?cells)). snd kv = []"
    using allnil by (auto dest: set_zip_rightD)
  have keys: "fst ` set (rev (zip hdr ?cells)) = set hdr"
    using lc by (metis map_fst_zip set_map set_rev)
  have "make_row hdr (pad_row hdr raw) h = Some []" if "h \<in> set hdr" for h
    unfolding make_row_def dict_of_def using that keys vals by (intro map_of_constant) auto
  then show ?thesis using len by (auto simp: skipped_row_def row_is_blank_def list_ex_iff)
qed

lemma dict_of_zip_nth:
  assumes "length ks = length vs" "distinct ks" "i < length ks"
  shows "dict_of (zip ks vs) (ks ! i) = Some (vs ! i)"
proof -
  let ?n = "length ks"
  have r: "rev (zip ks vs) = zip (rev ks) (rev vs)" using assms(1) by (simp add: zip_rev)
  have j: "?n - Suc i < length (rev vs)" using assms by simp
  have "map_of (zip (rev ks) (rev vs)) (rev ks ! (?n - Suc i)) = Some (rev vs ! (?n - Suc i))"
    using assms j by (intro map_of_zip_nth) auto
  moreover have "rev ks ! (?n - Suc i) = ks ! i" using assms by (simp add: rev_nth)
  moreover have "rev vs ! (?n - Suc i) = vs ! i" using assms by (simp add: rev_nth)
  ultimately show ?thesis by (simp add: dict_of_def r)
qed

lemma skipped_blank_cells:
  assumes d: "distinct hdr" and sk: "skipped_row hdr raw"
  shows "length raw \<le> length hdr \<and> blank_cells raw"
proof -
  from sk have len: "length raw \<le> length hdr"
    and bl: "\<forall>h \<in> set hdr. make_row hdr (pad_row hdr raw) h = Some []"
    by (auto simp: skipped_row_def row_is_blank_def list_ex_iff)
  let ?cells = "map py_strip (pad_row hdr raw)"
  have lc: "length hdr = length ?cells" using len by (simp add: length_pad_row)
  have "py_strip (raw ! i) = []" if i: "i < length raw" for i
  proof -
    from i len have ih: "i < length hdr" by simp
    from dict_of_zip_nth[OF lc d ih] have "make_row hdr (pad_row hdr raw) (hdr ! i) = Some (?cells ! i)"
      by (simp add: make_row_def)
    with bl ih have "?cells ! i = []" by (metis nth_mem option.inject)
    moreover have "?cells ! i = py_strip (raw ! i)"
      using i ih len by (simp add: length_pad_row pad_row_def nth_append)
    ultimately show ?thesis by simp
  qed
  then have "blank_cells raw" by (auto simp: blank_cells_def list_all_length)
  with len show ?thesis by simp
qed

lemma validate_loop_skip:
  "skipped_row hdr raw \<Longrightarrow>
   validate_rows_loop hdr lcol acol i data_rows (raw # rest)
     = validate_rows_loop hdr lcol acol (i + 1) data_rows rest"
  by (simp add: skipped_row_def Let_def)

lemma prepare_loop_skip:
  "skipped_row hdr raw \<Longrightarrow>
   prepare_rows_loop hdr i data_rows (raw # rest) = prepare_rows_loop hdr (i + 1) data_rows rest"
  by (simp add: skipped_row_def Let_def)

lemma validate_loop_all_skipped:
  "list_all (skipped_row hdr) rs \<Longrightarrow> validate_rows_loop hdr lcol acol i acc rs = Inr acc"
proof (induction rs arbitrary: i)
  case Nil
  show ?case by simp
next
  case (Cons r rs)
  from Cons.prems have s: "skipped_row hdr r" and rest: "list_all (skipped_row hdr) rs"
    by simp_all
  show ?case unfolding validate_loop_skip[OF s] by (rule Cons.IH[OF rest])
qed

lemma prepare_loop_all_skipped:
  "list_all (skipped_row hdr) rs \<Longrightarrow> prepare_rows_loop hdr i acc rs = Inr acc"
proof (induction rs arbitrary: i)
  case Nil
  show ?case by simp
next
  case (Cons r rs)
  from Cons.prems have s: "skipped_row hdr r" and rest: "list_all (skipped_row hdr) rs"
    by simp_all
  show ?case unfolding prepare_loop_skip[OF s] by (rule Cons.IH[OF rest])
qed

lemma validate_loop_grows:
  "validate_rows_loop hdr lcol acol i acc rs = Inr ds \<Longrightarrow>
   length acc \<le> length ds \<and> (\<not> list_all (skipped_row hdr) rs \<longrightarrow> length acc < length ds)"
proof (induction rs arbitrary: i acc)
  case Nil
  then show ?case by simp
next
  case (Cons r rs)
  show ?case
  proof (cases "skipped_row hdr r")
    case True
    with Cons.prems have "validate_rows_loop hdr lcol acol (i + 1) acc rs = Inr ds"
      by (simp only: validate_loop_skip)
    from Cons.IH[OF this] True show ?thesis by simp
  next
    case False
    define row where "row = make_row hdr (pad_row hdr r)"
    from False Cons.prems have "validate_rows_loop hdr lcol acol (i + 1) (acc @ [row]) rs = Inr ds"
      by (auto simp: skipped_row_def Let_def row_def split: if_splits option.splits)
    from Cons.IH[OF this] have "length (acc @ [row]) \<le> length ds" by simp
    then show ?thesis by simp
  qed
qed

lemma prepare_loop_grows:
  "prepare_rows_loop hdr i acc rs = Inr ds \<Longrightarrow>
   length acc \<le> length ds \<and> (\<not> list_all (skipped_row hdr) rs \<longrightarrow> length acc < length ds)"
proof (induction rs arbitrary: i acc)
  case Nil
  then show ?case by simp
next
  case (Cons r rs)
  show ?case
  proof (cases "skipped_row hdr r")
    case True
    with Cons.prems have "prepare_rows_loop hdr (i + 1) acc rs = Inr ds"
      by (simp only: prepare_loop_skip)
    from Cons.IH[OF this] True show ?thesis by simp
  next
    case False
    define row where "row = make_row hdr (pad_row hdr r)"
    from False Cons.prems have "prepare_rows_loop hdr (i + 1) (acc @ [row]) rs = Inr ds"
      by (auto simp: skipped_row_def Let_def row_def split: if_splits)
    from Cons.IH[OF this] have "length (acc @ [row]) \<le> length ds" by simp
    then show ?thesis by simp
  qed
qed

lemma validate_loop_error: "validate_rows_loop hdr lcol acol i acc rs \<noteq> Inl NoDataRows"
  by (induction rs arbitrary: i acc) (auto simp: Let_def split: option.splits)

lemma prepare_loop_error: "prepare_rows_loop hdr i acc rs \<noteq> Inl NoDataRows"
  by (induction rs arbitrary: i acc) (auto simp: Let_def)

lemma validate_no_data_rows:
  assumes h: "validate_header csv_rows = Inr (hdr, tps, lcol, acol)"
  shows "(parse_metadata_csv_validate csv_rows = Inl NoDataRows)
     = list_all (skipped_row hdr) (drop 2 csv_rows)"
proof (cases "validate_rows_loop hdr lcol acol 3 [] (drop 2 csv_rows)")
  case (Inl e)
  then have "\<not> list_all (skipped_row hdr) (drop 2 csv_rows)"
    using validate_loop_all_skipped[of hdr "drop 2 csv_rows" lcol acol 3 "[]"] by auto
  moreover have "e \<noteq> NoDataRows" using Inl validate_loop_error[of hdr lcol acol 3 "[]" "drop 2 csv_rows"] by auto
  ultimately show ?thesis using h Inl by (simp add: parse_metadata_csv_validate_def)
next
  case (Inr ds)
  from validate_loop_grows[OF Inr] validate_loop_all_skipped[of hdr "drop 2 csv_rows" lcol acol 3 "[]"] Inr
  have "(ds = []) = list_all (skipped_row hdr) (drop 2 csv_rows)" by auto
  then show ?thesis using h Inr by (simp add: parse_metadata_csv_validate_def)
qed

lemma prepare_no_data_rows:
  assumes h: "prepare_header csv_rows = Inr (hdr, tps, lcol, acol)"
  shows "(parse_metadata_csv_prepare csv_rows = Inl NoDataRows)
     = list_all (skipped_row hdr) (drop 2 csv_rows)"
proof (cases "prepare_rows_loop hdr 3 [] (drop 2 csv_rows)")
  case (Inl e)
  then have "\<not> list_all (skipped_row hdr) (drop 2 csv_rows)"
    using prepare_loop_all_skipped[of hdr "drop 2 csv_rows" 3 "[]"] by auto
  moreover have "e \<noteq> NoDataRows" using Inl prepare_loop_error[of hdr 3 "[]" "drop 2 csv_rows"] by auto
  ultimately show ?thesis using h Inl by (simp add: parse_metadata_csv_prepare_def)
next
  case (Inr ds)
  from prepare_loop_grows[OF Inr] prepare_loop_all_skipped[of hdr "drop 2 csv_rows" 3 "[]"] Inr
  have "(ds = []) = list_all (skipped_row hdr) (drop 2 csv_rows)" by auto
  then show ?thesis using h Inr by (simp add: parse_metadata_csv_prepare_def)
qed

lemma skipped_row_iff:
  "distinct hdr \<Longrightarrow> skipped_row hdr raw = (length raw \<le> length hdr \<and> blank_cells raw)"
  using blank_cells_skipped skipped_blank_cells by blast

text \<open>
  Claim C10, as amended. Both parsers pass over a data row that is not longer than the
  header and whose cells are all empty after stripping: the loop goes on with the next
  row, the rows collected so far unchanged and no check of the cells made. A row with
  more cells than the header raises the error of too many columns, blank or not. When
  the checks of the header pass and the names of the header are distinct, parsing
  fails with the error of no data rows exactly when every data row is blank and not
  longer than the header.
\<close>

theorem parsers_skip_blank_rows:
  "(length raw \<le> length hdr \<and> blank_cells raw \<longrightarrow>
      validate_rows_loop hdr lcol acol i data_rows (raw # rest)
        = validate_rows_loop hdr lcol acol (i + 1) data_rows rest \<and>
      prepare_rows_loop hdr i data_rows (raw # rest)
        = prepare_rows_loop hdr (i + 1) data_rows rest) \<and>
   (length raw > length hdr \<longrightarrow>
      validate_rows_loop hdr lcol acol i data_rows (raw # rest) = Inl (RowTooLong i) \<and>
      prepare_rows_loop hdr i data_rows (raw # rest) = Inl (RowTooLong i)) \<and>
   (validate_header csv_rows = Inr (hdr, tps, lcol, acol) \<and> distinct hdr \<longrightarrow>
      (parse_metadata_csv_validate csv_rows = Inl NoDataRows)
        = list_all (\<lambda>raw. length raw \<le> length hdr \<and> blank_cells raw) (drop 2 csv_rows)) \<and>
   (prepare_header csv_rows = Inr (hdr, tps, lcol, acol) \<and> distinct hdr \<longrightarrow>
      (parse_metadata_csv_prepare csv_rows = Inl NoDataRows)
        = list_all (\<lambda>raw. length raw \<le> length hdr \<and> blank_cells raw) (drop 2 csv_rows))"
proof (intro conjI impI)
  assume a: "length raw \<le> length hdr \<and> blank_cells raw"
  then have s: "skipped_row hdr raw" by (simp add: blank_cells_skipped)
  from s show "validate_rows_loop hdr lcol acol i data_rows (raw # rest)
        = validate_rows_loop hdr lcol acol (i + 1) data_rows rest" by (rule validate_loop_skip)
  from s show "prepare_rows_loop hdr i data_rows (raw # rest)
        = prepare_rows_loop hdr (i + 1) data_rows rest" by (rule prepare_loop_skip)
next
  assume "length raw > length hdr"
  then show "validate_rows_loop hdr lcol acol i data_rows (raw # rest) = Inl (RowTooLong i)"
    and "prepare_rows_loop hdr i data_rows (raw # rest) = Inl (RowTooLong i)" by simp_all
next
  assume a: "validate_header csv_rows = Inr (hdr, tps, lcol, acol) \<and> distinct hdr"
  then have "skipped_row hdr = (\<lambda>raw. length raw \<le> length hdr \<and> blank_cells raw)"
    by (auto simp: skipped_row_iff)
  with a validate_no_data_rows[of csv_rows hdr tps lcol acol]
  show "(parse_metadata_csv_validate csv_rows = Inl NoDataRows)
        = list_all (\<lambda>raw. length raw \<le> length hdr \<and> blank_cells raw) (drop 2 csv_rows)" by simp
next
  assume a: "prepare_header csv_rows = Inr (hdr, tps, lcol, acol) \<and> distinct hdr"
  then have "skipped_row hdr = (\<lambda>raw. length raw \<le> length hdr \<and> blank_cells raw)"
    by (auto simp: skipped_row_iff)
  with a prepare_no_data_rows[of csv_rows hdr tps lcol acol]
  show "(parse_metadata_csv_prepare csv_rows = Inl NoDataRows)
        = list_all (\<lambda>raw. length raw \<le> length hdr \<and> blank_cells raw) (drop 2 csv_rows)" by simp
qed

text \<open>
  The claim as stated fails: a row of three empty cells under a header of two columns
  is blank, and both parsers raise the error of too many columns instead of passing
  the row over.
\<close>

theorem parsers_reject_long_blank_row:
  "projl (parse_metadata_csv_validate
     [[''label'', ''accession''], [''character'', ''character''], ['''', '''', '''']])
     = RowTooLong 3 \<and>
   projl (parse_metadata_csv_prepare
     [[''label'', ''accession''], [''character'', ''character''], ['''', '''', '''']])
     = RowTooLong 3 \<and>
   isl (parse_metadata_csv_validate
     [[''label'', ''accession''], [''character'', ''character''], ['''', '''', '''']]) \<and>
   isl (parse_metadata_csv_prepare
     [[''label'', ''accession''], [''character'', ''character''], ['''', '''', '''']]) \<and>
   blank_cells ['''', '''', '''']"
  by code_simp

theorem parsers_skip_blank_rows_witness:
  "validate_header [[''label'', ''accession''], [''character'', ''date''], ['' ''], []]
     = Inr ([''label'', ''accession''], [''character'', ''date''], ''label'', ''accession'') \<and>
   distinct [''label'', ''accession''] \<and>
   parse_metadata_csv_validate [[''label'', ''accession''], [''character'', ''date''], ['' ''], []]
     = Inl NoDataRows \<and>
   parse_metadata_csv_prepare [[''label'', ''accession''], [''character'', ''date''], ['' ''], []]
     = Inl NoDataRows \<and>
   blank_cells ['' ''] \<and>
   validate_rows_loop [''label'', ''accession''] ''label'' ''accession'' 3 [] [['' ''], [''x'', '''']]
     = validate_rows_loop [''label'', ''accession''] ''label'' ''accession'' (3 + 1) [] [[''x'', '''']] \<and>
   prepare_rows_loop [''label'', ''accession''] 3 [] [['''', '''', '''']] = Inl (RowTooLong 3)"
proof -
  let ?rows = "[[''label'', ''accession''], [''character'', ''date''], ['' ''], []]"
  let ?hdr = "[''label'', ''accession'']"
  have v: "validate_header ?rows = Inr (?hdr, [''character'', ''date''], ''label'', ''accession'')"
    by code_simp
  have p: "prepare_header ?rows = Inr (?hdr, [''character'', ''date''], ''label'', ''accession'')"
    by code_simp
  have d: "distinct ?hdr" by simp
  have b: "list_all (\<lambda>raw. length raw \<le> length ?hdr \<and> blank_cells raw) (drop 2 ?rows)"
    by code_simp
  have c: "length ['' ''] \<le> length ?hdr \<and> blank_cells ['' '']" by code_simp
  have l: "length ['''', '''', ''''] > length ?hdr" by simp
  from v p d b parsers_skip_blank_rows [where hdr = ?hdr and csv_rows = ?rows and tps = "[''character'', ''date'']"
      and lcol = "''label''" and acol = "''accession''"]
  have 1: "parse_metadata_csv_validate ?rows = Inl NoDataRows \<and>
           parse_metadata_csv_prepare ?rows = Inl NoDataRows" by blast
  from c parsers_skip_blank_rows [where hdr = ?hdr and raw = "['' '']" and lcol = "''label''" and acol = "''accession''"
      and i = 3 and data_rows = "[]" and rest = "[[''x'', '''']]"]
  have 2: "validate_rows_loop ?hdr ''label'' ''accession'' 3 [] [['' ''], [''x'', '''']]
     = validate_rows_loop ?hdr ''label'' ''accession'' (3 + 1) [] [[''x'', '''']]" by blast
  from l parsers_skip_blank_rows [where hdr = ?hdr and raw = "['''', '''', '''']" and i = 3 and data_rows = "[]"
      and rest = "[]"]
  have 3: "prepare_rows_loop ?hdr 3 [] [['''', '''', '''']] = Inl (RowTooLong 3)" by blast
  from v d c 1 2 3 show ?thesis by blast
qed

end
